theory Spec2Isabelle
  imports Main "HOL-Library.Char_ord" "HOL-Library.List_Lexorder" "HOL-Library.Sublist"
begin

section \<open>Python strings\<close>

text \<open>
  A Python \<open>str\<close> is a sequence of code points. Here it is a \<^typ>\<open>string\<close>, each
  \<^typ>\<open>char\<close> standing for one code point below 256. \<open>str.isspace\<close> holds on
  those code points for tab, line feed, vertical tab, form feed, carriage return, the four
  separators 28 to 31, the space, NEL (133) and the no-break space (160); \<open>str.strip()\<close>,
  \<open>str.split()\<close> and the regular expression class \<open>\s\<close> all use this set.
\<close>

definition isspace :: "char \<Rightarrow> bool" where
  "isspace c = (of_char c \<in> {9, 10, 11, 12, 13, 28, 29, 30, 31, 32, 133, 160 :: nat})"

definition lstrip_chars :: "string \<Rightarrow> string \<Rightarrow> string" where
  "lstrip_chars chars s = dropWhile (\<lambda>c. c \<in> set chars) s"

definition rstrip_chars :: "string \<Rightarrow> string \<Rightarrow> string" where
  "rstrip_chars chars s = rev (dropWhile (\<lambda>c. c \<in> set chars) (rev s))"

definition strip_chars :: "string \<Rightarrow> string \<Rightarrow> string" where
  "strip_chars chars s = rstrip_chars chars (lstrip_chars chars s)"

definition strip :: "string \<Rightarrow> string" where
  "strip s = rev (dropWhile isspace (rev (dropWhile isspace s)))"

text \<open>\<open>s.split()\<close>: the maximal runs of characters that are not whitespace.\<close>

fun split_acc :: "string \<Rightarrow> string \<Rightarrow> string list" where
  "split_acc w [] = (if w = [] then [] else [w])"
| "split_acc w (c # cs) =
     (if isspace c then (if w = [] then split_acc [] cs else w # split_acc [] cs)
      else split_acc (w @ [c]) cs)"

definition split :: "string \<Rightarrow> string list" where
  "split s = split_acc [] s"

text \<open>\<open>sep.join(xs)\<close>.\<close>

fun join :: "string \<Rightarrow> string list \<Rightarrow> string" where
  "join sep [] = []"
| "join sep [x] = x"
| "join sep (x # y # ys) = x @ sep @ join sep (y # ys)"

abbreviation backslash :: char where
  "backslash \<equiv> CHR 0x5C"

abbreviation tab :: char where
  "tab \<equiv> CHR 0x09"

section \<open>Exceptions\<close>

text \<open>
  The exceptions the module can raise. None of them carries data that depends on the
  input: \<open>IndexError\<close> comes from \<open>strip_line[-1]\<close> on an empty string,
  \<open>StopIteration\<close> from \<open>next(it)\<close> on the exhausted line iterator,
  \<open>RuntimeError\<close> is what a generator raises in place of a \<open>StopIteration\<close> that
  escapes its body (Python 3.7 and later), \<open>AttributeError\<close> comes from
  \<open>re.match(...).groups()\<close> when \<open>re.match\<close> returns \<open>None\<close>,
  \<open>TypeError\<close> from \<open>item['target']\<close> on a string, and \<open>RecursionError\<close> is
  raised by the interpreter when a call would exceed its recursion limit.
\<close>

datatype error = IndexError | StopIteration | RuntimeError | AttributeError | TypeError | RecursionError

section \<open>The tokenizer\<close>

datatype Tokens = Tokens_target | Tokens_command | Tokens_expression

type_synonym token = "Tokens \<times> string"

text \<open>
  \<open>glue_multiline\<close> reads the enclosing iterator \<open>it\<close>; the model passes the lines
  not yet read and returns those that remain. \<open>glue_while\<close> is its \<open>while\<close> loop on
  \<open>lines\<close>, \<open>strip_line\<close> and the iterator.
\<close>

fun glue_while :: "string list \<Rightarrow> string \<Rightarrow> string list \<Rightarrow>
    error + (string list \<times> string \<times> string list)" where
  "glue_while lines strip_line it =
     (if strip_line = [] then Inl IndexError
      else if last strip_line = backslash then
        (case it of
           [] \<Rightarrow> Inl StopIteration
         | line # it' \<Rightarrow>
             glue_while (lines @ [strip (rstrip_chars [backslash] strip_line)]) (strip line) it')
      else Inr (lines, strip_line, it))"

definition glue_multiline :: "string \<Rightarrow> string list \<Rightarrow> error + (string \<times> string list)" where
  "glue_multiline line it =
     (case glue_while [] (strip line) it of
        Inl e \<Rightarrow> Inl e
      | Inr (lines, strip_line, it') \<Rightarrow>
          Inr (join '' '' (lines @ [strip (rstrip_chars [backslash] strip_line)]), it'))"

text \<open>
  The generator \<open>tokenizer\<close> is the list of the tokens it yields, with the exception that
  ends it, if one does. An exception leaving the generator body is re-raised to the
  consumer, a \<open>StopIteration\<close> as \<open>RuntimeError\<close>.
\<close>

type_synonym token_stream = "token list \<times> error option"

definition yield :: "token \<Rightarrow> token_stream \<Rightarrow> token_stream" where
  "yield t g = (t # fst g, snd g)"

definition generator_raise :: "error \<Rightarrow> token_stream" where
  "generator_raise e = ([], Some (if e = StopIteration then RuntimeError else e))"

declare glue_while.simps [simp del]

lemma glue_while_length:
  "glue_while lines sl it = Inr (lines', sl', it') \<Longrightarrow> length it' \<le> length it"
proof (induction lines sl it rule: glue_while.induct)
  case (1 lines strip_line it)
  show ?case
  proof (cases it)
    case Nil
    with "1.prems" show ?thesis
      by (subst (asm) glue_while.simps) (auto split: if_splits)
  next
    case (Cons line it1)
    show ?thesis
    proof (cases "strip_line \<noteq> [] \<and> last strip_line = backslash")
      case True
      with "1.prems" Cons have
        "glue_while (lines @ [strip (rstrip_chars [backslash] strip_line)]) (strip line) it1
           = Inr (lines', sl', it')"
        by (subst (asm) glue_while.simps) simp
      with "1.IH" True Cons have "length it' \<le> length it1" by blast
      with Cons show ?thesis by simp
    next
      case False
      with "1.prems" show ?thesis
        by (subst (asm) glue_while.simps) (auto split: if_splits)
    qed
  qed
qed

lemma glue_multiline_length:
  "glue_multiline line it = Inr (v, it') \<Longrightarrow> length it' \<le> length it"
  by (auto simp: glue_multiline_def split: sum.splits dest: glue_while_length)

function tokenizer :: "string list \<Rightarrow> token_stream" where
  "tokenizer [] = ([], None)"
| "tokenizer (line # it) =
     (let strip_line = strip line in
      if strip_line = [] then tokenizer it
      else if hd strip_line = CHR ''#'' \<and> take 2 line \<noteq> ''##'' then tokenizer it
      else if hd line = tab then
        (case glue_multiline line it of
           Inl e \<Rightarrow> generator_raise e
         | Inr (v, it') \<Rightarrow> yield (Tokens_command, v) (tokenizer it'))
      else if CHR '':'' \<in> set line \<and> CHR ''='' \<notin> set line then
        (case glue_multiline line it of
           Inl e \<Rightarrow> generator_raise e
         | Inr (v, it') \<Rightarrow> yield (Tokens_target, v) (tokenizer it'))
      else yield (Tokens_expression, strip_chars [CHR '' '', CHR '';'', tab] line) (tokenizer it))"
  by pat_completeness auto
termination
  by (relation "measure length") (auto dest: glue_multiline_length)

section \<open>The regular expression of \<open>parse_target\<close>\<close>

text \<open>
  \<open>re.match\<close> is a backtracking matcher: at each choice it tries the preferred
  alternative first and falls back to the next one when the rest of the pattern fails.
  \<open>rmatch r s g k\<close> matches \<open>r\<close> at the front of \<open>s\<close> with the groups \<open>g\<close> set so far
  and hands what is left of \<open>s\<close> to the continuation \<open>k\<close>, the rest of the pattern;
  \<open>None\<close> is failure. Only the constructs of the one pattern of the module are modelled:
  a character class, concatenation, the greedy \<open>?\<close>, the greedy \<open>+\<close> and the lazy
  \<open>+?\<close> of a character class, and a capturing group.
\<close>

datatype re =
    Chr "char \<Rightarrow> bool"
  | Seq re re
  | Opt re
  | PlusG "char \<Rightarrow> bool"
  | PlusL "char \<Rightarrow> bool"
  | Group nat re

type_synonym groups = "nat \<Rightarrow> string option"

fun rmatch :: "re \<Rightarrow> string \<Rightarrow> groups \<Rightarrow> (string \<Rightarrow> groups \<Rightarrow> 'a option) \<Rightarrow> 'a option" where
  "rmatch (Chr p) [] g k = None"
| "rmatch (Chr p) (c # cs) g k = (if p c then k cs g else None)"
| "rmatch (Seq r1 r2) s g k = rmatch r1 s g (\<lambda>s' g'. rmatch r2 s' g' k)"
| "rmatch (Opt r) s g k = (case rmatch r s g k of Some m \<Rightarrow> Some m | None \<Rightarrow> k s g)"
| "rmatch (PlusG p) [] g k = None"
| "rmatch (PlusG p) (c # cs) g k =
     (if p c then (case rmatch (PlusG p) cs g k of Some m \<Rightarrow> Some m | None \<Rightarrow> k cs g)
      else None)"
| "rmatch (PlusL p) [] g k = None"
| "rmatch (PlusL p) (c # cs) g k =
     (if p c then (case k cs g of Some m \<Rightarrow> Some m | None \<Rightarrow> rmatch (PlusL p) cs g k)
      else None)"
| "rmatch (Group n r) s g k =
     rmatch r s g (\<lambda>s' g'. k s' (g'(n \<mapsto> take (length s - length s') s)))"

text \<open>\<open>re.match(r, s)\<close> anchors at the start of \<open>s\<close> only; the result here is the
  groups of the match.\<close>

definition re_match :: "re \<Rightarrow> string \<Rightarrow> groups option" where
  "re_match r s = rmatch r s (\<lambda>n. None) (\<lambda>s' g. Some g)"

text \<open>
  The pattern is compiled with \<open>re.X\<close>, so its blanks are not part of it, and each of
  its \<open>#\<close> stands inside a character class, so none starts a comment:
  \<^verbatim>\<open>(.+?):\s?([^|#]+)?\s?[|]?\s?([^##]+)?\s?\s?([#][#].+)?\<close>.
  The dot matches every character but the line feed.
\<close>

definition dot :: "char \<Rightarrow> bool" where
  "dot c = (c \<noteq> CHR 0x0A)"

definition opt_space :: re where
  "opt_space = Opt (Chr isspace)"

definition doc_pattern :: re where
  "doc_pattern = Seq (Chr (\<lambda>c. c = CHR ''#'')) (Seq (Chr (\<lambda>c. c = CHR ''#'')) (PlusG dot))"

definition tail_pattern :: re where
  "tail_pattern =
     Seq opt_space
    (Seq (Opt (Group 2 (PlusG (\<lambda>c. c \<noteq> CHR ''|'' \<and> c \<noteq> CHR ''#''))))
    (Seq opt_space
    (Seq (Opt (Chr (\<lambda>c. c = CHR ''|'')))
    (Seq opt_space
    (Seq (Opt (Group 3 (PlusG (\<lambda>c. c \<noteq> CHR ''#''))))
    (Seq opt_space
    (Seq opt_space
         (Opt (Group 4 doc_pattern)))))))))"

definition target_pattern :: re where
  "target_pattern =
     Seq (Group 1 (PlusL dot)) (Seq (Chr (\<lambda>c. c = CHR '':'')) tail_pattern)"

text \<open>
  Two devices for the proofs below: the numbers of the groups inside a pattern, and the
  part of \<open>tail_pattern\<close> that follows the group of the required dependencies.
\<close>

fun group_ids :: "re \<Rightarrow> nat set" where
  "group_ids (Chr p) = {}"
| "group_ids (Seq r1 r2) = group_ids r1 \<union> group_ids r2"
| "group_ids (Opt r) = group_ids r"
| "group_ids (PlusG p) = {}"
| "group_ids (PlusL p) = {}"
| "group_ids (Group n r) = insert n (group_ids r)"

definition after_required :: re where
  "after_required =
     Seq opt_space
    (Seq (Opt (Chr (\<lambda>c. c = CHR ''|'')))
    (Seq opt_space
    (Seq (Opt (Group 3 (PlusG (\<lambda>c. c \<noteq> CHR ''#''))))
    (Seq opt_space
    (Seq opt_space
         (Opt (Group 4 doc_pattern)))))))"

section \<open>The parser\<close>

text \<open>
  An entry of the AST is a pair of a token kind and either the dictionary of a target
  (keys \<open>target\<close>, \<open>deps\<close>, \<open>docs\<close>, \<open>body\<close>) or the string of a token that is
  passed through.
\<close>

record target_dict =
  target :: string
  deps :: "string list \<times> string list"
  docs :: string
  body :: "token list"

datatype node = Dict target_dict | Str string

type_synonym ast = "(Tokens \<times> node) list"

text \<open>
  \<open>parse_body\<close> on the peekable iterator \<open>it\<close>: \<open>it.peek()\<close> raises
  \<open>StopIteration\<close> at the end of the tokens, which the \<open>except\<close> clause takes, and
  any other exception of the tokenizer passes through. The result is the body and the
  iterator after it.
\<close>

fun parse_body :: "token list \<Rightarrow> error option \<Rightarrow> error + (token list \<times> token_stream)" where
  "parse_body [] None = Inr ([], ([], None))"
| "parse_body [] (Some e) = (if e = StopIteration then Inr ([], ([], None)) else Inl e)"
| "parse_body (t # ts) err =
     (if fst t = Tokens_command then
        (case parse_body ts err of
           Inl e \<Rightarrow> Inl e
         | Inr (b, it') \<Rightarrow> Inr (t # b, it'))
      else Inr ([], (t # ts, err)))"

text \<open>\<open>parse_target\<close> returns the entry it appends to the AST and the iterator after
  the body.\<close>

definition parse_target :: "token \<Rightarrow> token_stream \<Rightarrow> error + ((Tokens \<times> node) \<times> token_stream)" where
  "parse_target token it =
     (case re_match target_pattern (snd token) of
        None \<Rightarrow> Inl AttributeError
      | Some g \<Rightarrow>
          (case parse_body (fst it) (snd it) of
             Inl e \<Rightarrow> Inl e
           | Inr (body_tokens, it') \<Rightarrow>
               (case g 1 of
                  None \<Rightarrow> Inl AttributeError
                | Some tgt \<Rightarrow>
                    Inr ((fst token, Dict \<lparr>
                      target = strip tgt,
                      deps =
                        ((case g 2 of None \<Rightarrow> []
                          | Some d \<Rightarrow> if d = [] then [] else sort (split (strip d))),
                         (case g 3 of None \<Rightarrow> []
                          | Some d \<Rightarrow> if d = [] then [] else sort (split (strip d)))),
                      docs =
                        (case g 4 of None \<Rightarrow> []
                         | Some d \<Rightarrow> if d = [] then []
                             else strip (strip_chars ''#'' (strip d))),
                      body = body_tokens \<rparr>), it'))))"

lemma parse_body_length:
  "parse_body ts err = Inr (b, it') \<Longrightarrow> length (fst it') \<le> length ts"
  by (induction ts err arbitrary: b it' rule: parse_body.induct)
     (auto split: if_splits sum.splits)

lemma parse_target_length:
  "parse_target token it = Inr (entry, it') \<Longrightarrow> length (fst it') \<le> length (fst it)"
  by (auto simp: parse_target_def split: option.splits sum.splits dest: parse_body_length)

text \<open>The \<open>for\<close> loop of \<open>parse\<close> over the peekable iterator; the result is the
  list of the entries appended to \<open>ast\<close>, in order.\<close>

function parse_for :: "token list \<Rightarrow> error option \<Rightarrow> error + ast" where
  "parse_for [] None = Inr []"
| "parse_for [] (Some e) = Inl e"
| "parse_for (token # ts) err =
     (if fst token = Tokens_target then
        (case parse_target token (ts, err) of
           Inl e \<Rightarrow> Inl e
         | Inr (entry, it') \<Rightarrow>
             (case parse_for (fst it') (snd it') of
                Inl e \<Rightarrow> Inl e
              | Inr ast \<Rightarrow> Inr (entry # ast)))
      else
        (case parse_for ts err of
           Inl e \<Rightarrow> Inl e
         | Inr ast \<Rightarrow> Inr ((fst token, Str (snd token)) # ast)))"
  by pat_completeness auto
termination
  by (relation "measure (\<lambda>(ts, err). length ts)") (auto dest: parse_target_length)

definition parse :: "string list \<Rightarrow> error + ast" where
  "parse fd = (let it = tokenizer fd in parse_for (fst it) (snd it))"

section \<open>The graph builder\<close>

text \<open>
  A \<open>dict\<close> is an association list with distinct keys in insertion order, a \<open>set\<close> a
  list without duplicates. Python fixes no iteration order for a set; the model iterates in
  insertion order, and what is proved below is about membership only.
\<close>

type_synonym 'v dict = "(string \<times> 'v) list"

fun dict_set :: "string \<Rightarrow> 'v \<Rightarrow> 'v dict \<Rightarrow> 'v dict" where
  "dict_set k v [] = [(k, v)]"
| "dict_set k v (p # ps) = (if fst p = k then (k, v) # ps else p # dict_set k v ps)"

definition set_add :: "'a \<Rightarrow> 'a list \<Rightarrow> 'a list" where
  "set_add x xs = (if x \<in> set xs then xs else xs @ [x])"

definition set_update :: "'a list \<Rightarrow> 'a list \<Rightarrow> 'a list" where
  "set_update xs ys = fold set_add ys xs"

text \<open>
  A \<open>defaultdict(set)\<close>: reading a key that is absent stores the empty set under it.
  \<open>dd_touch\<close> is the bare \<open>d[k]\<close>, \<open>dd_get\<close> the value read,
  \<open>dd_add\<close> is \<open>d[k].add(x)\<close> and \<open>dd_update\<close> is \<open>d[k].update(xs)\<close>.
\<close>

definition dd_touch :: "string \<Rightarrow> string list dict \<Rightarrow> string list dict" where
  "dd_touch k d = (case map_of d k of None \<Rightarrow> d @ [(k, [])] | Some v \<Rightarrow> d)"

definition dd_get :: "string list dict \<Rightarrow> string \<Rightarrow> string list" where
  "dd_get d k = (case map_of d k of None \<Rightarrow> [] | Some v \<Rightarrow> v)"

definition dd_add :: "string \<Rightarrow> string \<Rightarrow> string list dict \<Rightarrow> string list dict" where
  "dd_add k x d = dict_set k (set_add x (dd_get d k)) (dd_touch k d)"

definition dd_update :: "string \<Rightarrow> string list \<Rightarrow> string list dict \<Rightarrow> string list dict" where
  "dd_update k xs d = dict_set k (set_update (dd_get d k) xs) (dd_touch k d)"

record graph_state =
  dependencies :: "(string list \<times> string list) dict"
  influences :: "string list dict"
  order_only :: "string list"

text \<open>The first \<open>for\<close> loop of \<open>get_dependencies_influences\<close>, one AST entry at a
  time.\<close>

definition build_step :: "Tokens \<times> node \<Rightarrow> graph_state \<Rightarrow> error + graph_state" where
  "build_step entry st =
     (if fst entry \<noteq> Tokens_target then Inr st
      else
        (case snd entry of
           Str s \<Rightarrow> Inl TypeError
         | Dict item \<Rightarrow>
             (if target item = ''.PHONY'' then Inr st
              else Inr \<lparr>
                dependencies = dict_set (target item) (deps item) (dependencies st),
                influences =
                  fold dd_touch (snd (deps item))
                    (fold (\<lambda>k. dd_add k (target item)) (fst (deps item))
                       (dd_touch (target item) (influences st))),
                order_only = set_update (order_only st) (snd (deps item)) \<rparr>)))"

fun build_for :: "ast \<Rightarrow> graph_state \<Rightarrow> error + graph_state" where
  "build_for [] st = Inr st"
| "build_for (entry # rest) st =
     (case build_step entry st of Inl e \<Rightarrow> Inl e | Inr st' \<Rightarrow> build_for rest st')"

text \<open>
  A \<open>for\<close> loop whose body may raise: the first exception ends the loop.
\<close>

fun for_each :: "('a \<Rightarrow> 's \<Rightarrow> error + 's) \<Rightarrow> 'a list \<Rightarrow> 's \<Rightarrow> error + 's" where
  "for_each f [] s = Inr s"
| "for_each f (x # xs) s = (case f x s of Inl e \<Rightarrow> Inl e | Inr s' \<Rightarrow> for_each f xs s')"

text \<open>
  \<open>recurse_indirect_influences\<close> reads \<open>influences\<close> and updates
  \<open>indirect_influences\<close>, which is passed through. Every call takes a frame of the
  interpreter's stack, and the interpreter raises \<open>RecursionError\<close> in place of a call
  that would exceed its recursion limit. The first argument is the number of nested calls
  of \<open>recurse_indirect_influences\<close> that the limit still allows:
  \<open>sys.getrecursionlimit()\<close> (1000 unless it was changed) less the frames in use when
  \<open>get_dependencies_influences\<close> makes the call. The function has no other bound and
  keeps no record of the targets it has visited.

  \<open>influences[recurse_target]\<close> is read with \<open>dd_get\<close>, which stores nothing: every
  member of a set of \<open>influences\<close> is a key of it already (lemma
  \<open>influences_members_are_keys\<close> below), so the read never adds a key.
\<close>

fun recurse_indirect_influences ::
    "nat \<Rightarrow> string list dict \<Rightarrow> string \<Rightarrow> string \<Rightarrow> string list dict
       \<Rightarrow> error + string list dict" where
  "recurse_indirect_influences 0 infl original_target recurse_target indirect =
     Inl RecursionError"
| "recurse_indirect_influences (Suc limit) infl original_target recurse_target indirect =
     for_each (\<lambda>t ind. recurse_indirect_influences limit infl original_target t ind)
       (dd_get infl recurse_target)
       (dd_update original_target (dd_get infl recurse_target) indirect)"

declare recurse_indirect_influences.simps [simp del]

text \<open>The two nested \<open>for\<close> loops over \<open>influences.items()\<close>.\<close>

definition indirect_for :: "nat \<Rightarrow> string list dict \<Rightarrow> error + string list dict" where
  "indirect_for limit infl =
     for_each (\<lambda>(original_target, targets) ind.
         for_each (\<lambda>t ind'. recurse_indirect_influences limit infl original_target t ind')
           targets ind)
       infl []"

text \<open>
  The result is the tuple \<open>(dependencies, influences, order_only,
  indirect_influences)\<close>; \<open>limit\<close> is the recursion depth left for
  \<open>recurse_indirect_influences\<close>.
\<close>

definition get_dependencies_influences ::
    "nat \<Rightarrow> ast \<Rightarrow> error + ((string list \<times> string list) dict \<times> string list dict \<times> string list
       \<times> string list dict)" where
  "get_dependencies_influences limit ast =
     (case build_for ast \<lparr>dependencies = [], influences = [], order_only = []\<rparr> of
        Inl e \<Rightarrow> Inl e
      | Inr st \<Rightarrow>
          (case indirect_for limit (influences st) of
             Inl e \<Rightarrow> Inl e
           | Inr indirect \<Rightarrow>
               Inr (dependencies st, influences st, order_only st, indirect)))"

text \<open>
  The influence graph of an \<open>influences\<close> dictionary has an edge from \<open>x\<close> to every
  member of \<open>influences[x]\<close>. \<open>graphed\<close> lists the dictionaries of the AST that the
  first loop does not skip: those of the target entries not named \<open>.PHONY\<close>.
\<close>

definition influence_rel :: "string list dict \<Rightarrow> (string \<times> string) set" where
  "influence_rel infl = {(x, y). y \<in> set (dd_get infl x)}"

fun graphed :: "ast \<Rightarrow> target_dict list" where
  "graphed [] = []"
| "graphed ((k, Str s) # rest) = graphed rest"
| "graphed ((k, Dict d) # rest) =
     (if k = Tokens_target \<and> target d \<noteq> ''.PHONY'' then d # graphed rest else graphed rest)"

section \<open>Example inputs\<close>

definition chain_lines :: "string list" where
  "chain_lines = [''A: B'', ''B: C'', ''C:'']"

definition chain_ast :: ast where
  "chain_ast =
     [(Tokens_target, Dict \<lparr>target = ''A'', deps = ([''B''], []), docs = [], body = []\<rparr>),
      (Tokens_target, Dict \<lparr>target = ''B'', deps = ([''C''], []), docs = [], body = []\<rparr>),
      (Tokens_target, Dict \<lparr>target = ''C'', deps = ([], []), docs = [], body = []\<rparr>)]"

definition chain_influences :: "string list dict" where
  "chain_influences = [(''A'', []), (''B'', [''A'']), (''C'', [''B''])]"

definition chain_indirect :: "string list dict" where
  "chain_indirect = [(''B'', []), (''C'', [''A''])]"

definition chain_state :: graph_state where
  "chain_state =
     \<lparr>dependencies = [(''A'', ([''B''], [])), (''B'', ([''C''], [])), (''C'', ([], []))],
      influences = chain_influences,
      order_only = []\<rparr>"

definition cycle_ast :: ast where
  "cycle_ast =
     [(Tokens_target, Dict \<lparr>target = ''A'', deps = ([''B''], []), docs = [], body = []\<rparr>),
      (Tokens_target, Dict \<lparr>target = ''B'', deps = ([''A''], []), docs = [], body = []\<rparr>)]"

definition cycle_state :: graph_state where
  "cycle_state =
     \<lparr>dependencies = [(''A'', ([''B''], [])), (''B'', ([''A''], []))],
      influences = [(''A'', [''B'']), (''B'', [''A''])],
      order_only = []\<rparr>"

definition phony_ast :: ast where
  "phony_ast =
     [(Tokens_target,
       Dict \<lparr>target = ''.PHONY'', deps = ([''clean'', ''test''], []), docs = [], body = []\<rparr>)]"

definition order_only_ast :: ast where
  "order_only_ast =
     [(Tokens_target, Dict \<lparr>target = ''A'', deps = ([''B''], [''X'']), docs = [], body = []\<rparr>),
      (Tokens_target, Dict \<lparr>target = ''.PHONY'', deps = ([''A''], [''Y'']), docs = [], body = []\<rparr>),
      (Tokens_target, Dict \<lparr>target = ''C'', deps = ([], [''A'']), docs = [], body = []\<rparr>)]"

section \<open>Properties of the tokenizer\<close>

lemma hd_strip_line: "strip line \<noteq> [] \<Longrightarrow> (hd (strip line) = CHR ''#'') = (\<exists>r. strip line = CHR ''#'' # r)"
  by (cases "strip line") auto

lemma take2_hashes: "(take 2 line = ''##'') = (\<exists>r. line = ''##'' @ r)"
proof
  assume "take 2 line = ''##''"
  then have "line = ''##'' @ drop 2 line" by (metis append_take_drop_id)
  then show "\<exists>r. line = ''##'' @ r" ..
next
  assume "\<exists>r. line = ''##'' @ r"
  then show "take 2 line = ''##''" by auto
qed

lemma strip_nonempty_line: "strip line \<noteq> [] \<Longrightarrow> line \<noteq> []"
  by (auto simp: strip_def)

lemma hd_tab: "line \<noteq> [] \<Longrightarrow> (hd line = tab) = (\<exists>r. line = tab # r)"
  by (cases line) auto

lemma glue_while_Nil:
  "glue_while lines sl [] =
     (if sl = [] then Inl IndexError else if last sl = backslash then Inl StopIteration
      else Inr (lines, sl, []))"
  by (subst glue_while.simps) simp

lemma glue_while_Cons:
  "glue_while lines sl (line # it) =
     (if sl = [] then Inl IndexError
      else if last sl = backslash then
        glue_while (lines @ [strip (rstrip_chars [backslash] sl)]) (strip line) it
      else Inr (lines, sl, line # it))"
  by (subst glue_while.simps) simp

lemma glue_while_all_continued:
  "sl \<noteq> [] \<Longrightarrow> last sl = backslash \<Longrightarrow>
   \<forall>l \<in> set conts. strip l \<noteq> [] \<and> last (strip l) = backslash \<Longrightarrow>
   glue_while lines sl conts = Inl StopIteration"
  by (induction conts arbitrary: lines sl) (simp_all add: glue_while_Nil glue_while_Cons)

lemma glue_while_blank:
  "sl \<noteq> [] \<Longrightarrow> last sl = backslash \<Longrightarrow>
   \<forall>l \<in> set conts. strip l \<noteq> [] \<and> last (strip l) = backslash \<Longrightarrow>
   strip blank = [] \<Longrightarrow>
   glue_while lines sl (conts @ blank # it) = Inl IndexError"
proof (induction conts arbitrary: lines sl)
  case Nil
  then show ?case by (cases it) (simp_all add: glue_while_Nil glue_while_Cons)
next
  case (Cons l conts)
  then show ?case by (simp add: glue_while_Cons)
qed

lemma glue_while_append:
  "glue_while lines sl it = Inr (ls, sl', it') \<Longrightarrow>
   glue_while lines sl (it @ rest) = Inr (ls, sl', it' @ rest)"
proof (induction it arbitrary: lines sl)
  case Nil
  then show ?case
    by (cases rest) (auto simp: glue_while_Nil glue_while_Cons split: if_splits)
next
  case (Cons l it)
  then show ?case by (auto simp: glue_while_Cons split: if_splits)
qed

lemma glue_while_consumed:
  "glue_while lines sl it = Inr (ls, sl', it') \<Longrightarrow>
   \<exists>consumed. it = consumed @ it' \<and> (\<forall>l \<in> set consumed. strip l \<noteq> [])"
proof (induction it arbitrary: lines sl)
  case Nil
  then show ?case by (auto simp: glue_while_Nil split: if_splits)
next
  case (Cons l it)
  show ?case
  proof (cases "sl \<noteq> [] \<and> last sl = backslash")
    case True
    with Cons.prems have g: "glue_while (lines @ [strip (rstrip_chars [backslash] sl)]) (strip l) it
        = Inr (ls, sl', it')"
      by (simp add: glue_while_Cons)
    from Cons.IH [OF g] obtain consumed where
      c: "it = consumed @ it'" "\<forall>l \<in> set consumed. strip l \<noteq> []" by blast
    from g have "strip l \<noteq> []"
      by (cases it) (auto simp: glue_while_Nil glue_while_Cons split: if_splits)
    with c have "l # it = (l # consumed) @ it' \<and> (\<forall>l \<in> set (l # consumed). strip l \<noteq> [])"
      by simp
    then show ?thesis by blast
  next
    case False
    with Cons.prems have "it' = l # it"
      by (auto simp: glue_while_Cons split: if_splits)
    then show ?thesis by simp
  qed
qed

lemma glue_multiline_append:
  "glue_multiline line it = Inr (v, it') \<Longrightarrow> glue_multiline line (it @ rest) = Inr (v, it' @ rest)"
proof -
  assume a: "glue_multiline line it = Inr (v, it')"
  then obtain ls sl where g: "glue_while [] (strip line) it = Inr (ls, sl, it')"
    and v: "v = join '' '' (ls @ [strip (rstrip_chars [backslash] sl)])"
    by (auto simp: glue_multiline_def split: sum.splits)
  from glue_while_append [OF g, of rest] v show ?thesis
    by (simp add: glue_multiline_def)
qed

lemma tokenizer_append:
  "tokenizer pre = (toks, None) \<Longrightarrow>
   tokenizer (pre @ rest) = (toks @ fst (tokenizer rest), snd (tokenizer rest))"
proof (induction "length pre" arbitrary: pre toks rule: less_induct)
  case less
  show ?case
  proof (cases pre)
    case Nil
    with less.prems show ?thesis by simp
  next
    case (Cons line it)
    note pre = Cons
    show ?thesis
    proof (cases "strip line = [] \<or> (hd (strip line) = CHR ''#'' \<and> take 2 line \<noteq> ''##'')")
      case True
      with less.prems pre have "tokenizer it = (toks, None)"
        by (auto simp: Let_def split: if_splits)
      with less.hyps [of it toks] pre
      have "tokenizer (it @ rest) = (toks @ fst (tokenizer rest), snd (tokenizer rest))"
        by simp
      with True pre show ?thesis by (auto simp: Let_def)
    next
      case False
      note F = False
      show ?thesis
      proof (cases "hd line = tab \<or> (CHR '':'' \<in> set line \<and> CHR ''='' \<notin> set line)")
        case True
        define k where "k = (if hd line = tab then Tokens_command else Tokens_target)"
        have eq: "\<And>r. tokenizer (line # r) = (case glue_multiline line r of
             Inl e \<Rightarrow> generator_raise e
           | Inr (v, it') \<Rightarrow> yield (k, v) (tokenizer it'))"
        proof -
          fix r
          have "hd line = tab \<Longrightarrow> k = Tokens_command" "hd line \<noteq> tab \<Longrightarrow> k = Tokens_target"
            by (simp_all add: k_def)
          with F True show "tokenizer (line # r) = (case glue_multiline line r of
             Inl e \<Rightarrow> generator_raise e
           | Inr (v, it') \<Rightarrow> yield (k, v) (tokenizer it'))"
            by (cases "hd line = tab") (auto simp: Let_def)
        qed
        from less.prems obtain v it' where g: "glue_multiline line it = Inr (v, it')"
          unfolding pre eq by (cases "glue_multiline line it") (auto simp: generator_raise_def)
        with less.prems obtain toks' where t: "tokenizer it' = (toks', None)" "toks = (k, v) # toks'"
          unfolding pre eq by (cases "tokenizer it'") (auto simp: yield_def)
        from glue_multiline_length [OF g] pre have "length it' < length pre" by simp
        from less.hyps [OF this t(1)]
        have ih: "tokenizer (it' @ rest) = (toks' @ fst (tokenizer rest), snd (tokenizer rest))" .
        show ?thesis
          using glue_multiline_append [OF g, of rest] ih t
          by (simp add: pre eq yield_def del: tokenizer.simps)
      next
        case False
        have eq: "\<And>r. tokenizer (line # r) =
            yield (Tokens_expression, strip_chars [CHR '' '', CHR '';'', tab] line) (tokenizer r)"
          using F False by (auto simp: Let_def)
        from less.prems obtain toks' where t: "tokenizer it = (toks', None)"
            "toks = (Tokens_expression, strip_chars [CHR '' '', CHR '';'', tab] line) # toks'"
          unfolding pre eq by (cases "tokenizer it") (auto simp: yield_def)
        from less.hyps [of it toks'] pre t(1)
        have "tokenizer (it @ rest) = (toks' @ fst (tokenizer rest), snd (tokenizer rest))"
          by simp
        then show ?thesis using t by (simp add: pre eq yield_def del: tokenizer.simps)
      qed
    qed
  qed
qed

section \<open>Continuation lines\<close>

text \<open>
  Claim C9: let the lines \<open>pre\<close> tokenize without an exception, let \<open>line\<close> be a
  line that the tokenizer splices (a \<open>command\<close> or \<open>target\<close> line), and let
  \<open>line\<close> and every line after it up to the end of the input end in a backslash once
  trimmed. Then the tokenizer yields the tokens of \<open>pre\<close> and raises: \<open>next(it)\<close>
  fails with \<open>StopIteration\<close> inside the generator, which surfaces as
  \<open>RuntimeError\<close>. No token is yielded for the unfinished splice.
\<close>

theorem continuation_at_end_of_input:
  "tokenizer pre = (toks, None) \<and>
   strip line \<noteq> [] \<and> \<not> (hd (strip line) = CHR ''#'' \<and> take 2 line \<noteq> ''##'') \<and>
   (hd line = tab \<or> (CHR '':'' \<in> set line \<and> CHR ''='' \<notin> set line)) \<and>
   (\<forall>l \<in> set (line # conts). strip l \<noteq> [] \<and> last (strip l) = backslash) \<longrightarrow>
   tokenizer (pre @ line # conts) = (toks, Some RuntimeError)"
proof (intro impI, elim conjE)
  assume pre: "tokenizer pre = (toks, None)"
    and ne: "strip line \<noteq> []"
    and nc: "\<not> (hd (strip line) = CHR ''#'' \<and> take 2 line \<noteq> ''##'')"
    and sp: "hd line = tab \<or> (CHR '':'' \<in> set line \<and> CHR ''='' \<notin> set line)"
    and all: "\<forall>l \<in> set (line # conts). strip l \<noteq> [] \<and> last (strip l) = backslash"
  from all have "glue_while [] (strip line) conts = Inl StopIteration"
    by (intro glue_while_all_continued) simp_all
  then have "glue_multiline line conts = Inl StopIteration"
    by (simp add: glue_multiline_def)
  with ne nc sp have "tokenizer (line # conts) = ([], Some RuntimeError)"
    by (auto simp: Let_def generator_raise_def)
  with tokenizer_append [OF pre, of "line # conts"] show
    "tokenizer (pre @ line # conts) = (toks, Some RuntimeError)"
    by simp
qed

text \<open>
  Claim C10: when a spliced line and the lines \<open>conts\<close> after it all end in a backslash
  once trimmed, and the next line \<open>blank\<close> is empty once trimmed, the tokenizer raises
  \<open>IndexError\<close> (from \<open>strip_line[-1]\<close>) after the tokens of the lines before.
  Conversely, when a splice returns, every line it has read as a continuation is non-empty
  once trimmed.
\<close>

theorem blank_continuation:
  "(tokenizer pre = (toks, None) \<and>
    strip line \<noteq> [] \<and> \<not> (hd (strip line) = CHR ''#'' \<and> take 2 line \<noteq> ''##'') \<and>
    (hd line = tab \<or> (CHR '':'' \<in> set line \<and> CHR ''='' \<notin> set line)) \<and>
    (\<forall>l \<in> set (line # conts). strip l \<noteq> [] \<and> last (strip l) = backslash) \<and>
    strip blank = [] \<longrightarrow>
    tokenizer (pre @ line # conts @ blank # it) = (toks, Some IndexError)) \<and>
   (glue_multiline line2 it2 = Inr (v, it2') \<longrightarrow>
    (\<exists>consumed. it2 = consumed @ it2' \<and> (\<forall>l \<in> set consumed. strip l \<noteq> [])))"
proof (intro conjI impI, elim conjE)
  assume pre: "tokenizer pre = (toks, None)"
    and ne: "strip line \<noteq> []"
    and nc: "\<not> (hd (strip line) = CHR ''#'' \<and> take 2 line \<noteq> ''##'')"
    and sp: "hd line = tab \<or> (CHR '':'' \<in> set line \<and> CHR ''='' \<notin> set line)"
    and all: "\<forall>l \<in> set (line # conts). strip l \<noteq> [] \<and> last (strip l) = backslash"
    and blank: "strip blank = []"
  from all blank have "glue_while [] (strip line) (conts @ blank # it) = Inl IndexError"
    by (intro glue_while_blank) simp_all
  then have "glue_multiline line (conts @ blank # it) = Inl IndexError"
    by (simp add: glue_multiline_def)
  with ne nc sp have "tokenizer (line # conts @ blank # it) = ([], Some IndexError)"
    by (auto simp: Let_def generator_raise_def)
  with tokenizer_append [OF pre, of "line # conts @ blank # it"] show
    "tokenizer (pre @ line # conts @ blank # it) = (toks, Some IndexError)"
    by simp
next
  assume "glue_multiline line2 it2 = Inr (v, it2')"
  then obtain ls sl where "glue_while [] (strip line2) it2 = Inr (ls, sl, it2')"
    by (auto simp: glue_multiline_def split: sum.splits)
  then show "\<exists>consumed. it2 = consumed @ it2' \<and> (\<forall>l \<in> set consumed. strip l \<noteq> [])"
    by (rule glue_while_consumed)
qed

section \<open>Line classification\<close>

lemma strip_hd_not_space: "strip s \<noteq> [] \<Longrightarrow> \<not> isspace (hd (strip s))"
proof -
  assume ne: "strip s \<noteq> []"
  let ?d = "dropWhile isspace s"
  have p: "?d = strip s @ rev (takeWhile isspace (rev ?d))"
    unfolding strip_def
    by (metis rev_append rev_rev_ident takeWhile_dropWhile_id)
  from ne have "hd ?d = hd (strip s)" by (subst p) simp
  moreover have "?d \<noteq> []"
  proof
    assume d: "?d = []"
    have "strip s = rev (dropWhile isspace (rev ?d))" by (simp only: strip_def)
    also have "\<dots> = []" unfolding d by simp
    finally show False using ne by simp
  qed
  then have "\<not> isspace (hd ?d)" by (rule hd_dropWhile)
  ultimately show ?thesis by simp
qed

lemma strip_last_not_space: "strip s \<noteq> [] \<Longrightarrow> \<not> isspace (last (strip s))"
proof -
  assume ne: "strip s \<noteq> []"
  let ?r = "dropWhile isspace (rev (dropWhile isspace s))"
  from ne have "?r \<noteq> []" by (simp add: strip_def)
  then have "\<not> isspace (hd ?r)" by (rule hd_dropWhile)
  moreover from \<open>?r \<noteq> []\<close> have "last (strip s) = hd ?r" by (simp add: strip_def last_rev)
  ultimately show ?thesis by simp
qed

lemma strip_fixed:
  assumes "s \<noteq> []" "\<not> isspace (hd s)" "\<not> isspace (last s)"
  shows "strip s = s"
proof -
  from assms(1,2) have 1: "dropWhile isspace s = s" by (cases s) auto
  from assms(1,3) have "dropWhile isspace (rev s) = rev s" by (cases "rev s") (auto simp: hd_rev)
  with 1 show ?thesis by (simp add: strip_def)
qed

lemma strip_strip: "strip (strip s) = strip s"
proof (cases "strip s = []")
  case True
  have "strip [] = []" by (simp add: strip_def)
  with True show ?thesis by simp
next
  case False
  then show ?thesis by (intro strip_fixed strip_hd_not_space strip_last_not_space)
qed

lemma rstrip_chars_noop: "s \<noteq> [] \<Longrightarrow> last s \<notin> set chars \<Longrightarrow> rstrip_chars chars s = s"
  by (cases "rev s") (auto simp: rstrip_chars_def last_rev hd_rev)

lemma glue_multiline_plain:
  assumes "strip line \<noteq> []" "last (strip line) \<noteq> backslash"
  shows "glue_multiline line it = Inr (strip line, it)"
proof -
  from assms have "glue_while [] (strip line) it = Inr ([], strip line, it)"
    by (subst glue_while.simps) simp
  moreover from assms have "rstrip_chars [backslash] (strip line) = strip line"
    by (intro rstrip_chars_noop) simp_all
  ultimately show ?thesis by (simp add: glue_multiline_def strip_strip)
qed

lemma glue_while_returns:
  assumes "sl \<noteq> []" "last sl = backslash"
    and "\<forall>l \<in> set conts. strip l \<noteq> [] \<and> last (strip l) = backslash"
    and "strip fin \<noteq> []" "last (strip fin) \<noteq> backslash"
  shows "glue_while lines sl (conts @ fin # it) =
     Inr (lines @ map (\<lambda>x. strip (rstrip_chars [backslash] x)) (sl # map strip conts), strip fin, it)"
  using assms
proof (induction conts arbitrary: lines sl)
  case Nil
  then show ?case
    by (subst glue_while.simps, simp, subst glue_while.simps, simp)
next
  case (Cons l conts)
  from Cons.prems have "glue_while (lines @ [strip (rstrip_chars [backslash] sl)]) (strip l) (conts @ fin # it) =
     Inr ((lines @ [strip (rstrip_chars [backslash] sl)]) @
          map (\<lambda>x. strip (rstrip_chars [backslash] x)) (strip l # map strip conts), strip fin, it)"
    by (intro Cons.IH) simp_all
  with Cons.prems(1,2) show ?case by (subst glue_while.simps) simp
qed

lemma glue_multiline_returns:
  assumes "\<forall>l \<in> set (line # conts). strip l \<noteq> [] \<and> last (strip l) = backslash"
    and "strip fin \<noteq> []" "last (strip fin) \<noteq> backslash"
  shows "glue_multiline line (conts @ fin # it) =
     Inr (join '' '' (map (\<lambda>l. strip (rstrip_chars [backslash] (strip l))) (line # conts @ [fin])), it)"
proof -
  from assms have "glue_while [] (strip line) (conts @ fin # it) =
     Inr ([] @ map (\<lambda>x. strip (rstrip_chars [backslash] x)) (strip line # map strip conts), strip fin, it)"
    by (intro glue_while_returns) simp_all
  then show ?thesis by (simp add: glue_multiline_def comp_def)
qed

text \<open>
  Claim C4, as the code has it: the tokenizer classifies the line at the cursor by the first
  rule that applies. A line that is empty after trimming yields no token; a line whose
  trimmed form starts with \<open>#\<close> and whose raw form does not start with \<open>##\<close> yields no
  token. Otherwise a line whose first raw character is a tab, and failing that a line with a
  \<open>:\<close> and no \<open>=\<close>, opens a splice: when the splice returns the value \<open>v\<close>, the
  tokenizer yields the \<open>command\<close> (respectively \<open>target\<close>) token of value \<open>v\<close> and
  goes on after the lines the splice has read; when the splice raises, the tokenizer yields
  no token for the line and raises (\<open>RuntimeError\<close> in place of \<open>StopIteration\<close>). Any
  other line yields the \<open>expression\<close> token whose value is the line without leading and
  trailing spaces, semicolons and tabs. The splice of a line that does not end in a
  backslash once trimmed returns the trimmed line and reads no further line, so such a tab
  or target line always yields its token; the splice of a line followed by continuation
  lines, all ending in a backslash once trimmed, and then by a line that is not blank and
  does not, returns the pieces joined by single spaces.
\<close>

theorem tokenizer_rules:
  "(strip line = [] \<longrightarrow> tokenizer (line # it) = tokenizer it) \<and>
   (strip line \<noteq> [] \<and> (\<exists>r. strip line = CHR ''#'' # r) \<and> \<not> (\<exists>r. line = ''##'' @ r) \<longrightarrow>
      tokenizer (line # it) = tokenizer it) \<and>
   (strip line \<noteq> [] \<and> \<not> ((\<exists>r. strip line = CHR ''#'' # r) \<and> \<not> (\<exists>r. line = ''##'' @ r)) \<and>
    (\<exists>r. line = tab # r) \<and> glue_multiline line it = Inr (v, it') \<longrightarrow>
      tokenizer (line # it) = ((Tokens_command, v) # fst (tokenizer it'), snd (tokenizer it'))) \<and>
   (strip line \<noteq> [] \<and> \<not> ((\<exists>r. strip line = CHR ''#'' # r) \<and> \<not> (\<exists>r. line = ''##'' @ r)) \<and>
    (\<exists>r. line = tab # r) \<and> glue_multiline line it = Inl e \<longrightarrow>
      tokenizer (line # it) = ([], Some (if e = StopIteration then RuntimeError else e))) \<and>
   (strip line \<noteq> [] \<and> \<not> ((\<exists>r. strip line = CHR ''#'' # r) \<and> \<not> (\<exists>r. line = ''##'' @ r)) \<and>
    \<not> (\<exists>r. line = tab # r) \<and> CHR '':'' \<in> set line \<and> CHR ''='' \<notin> set line \<and>
    glue_multiline line it = Inr (v, it') \<longrightarrow>
      tokenizer (line # it) = ((Tokens_target, v) # fst (tokenizer it'), snd (tokenizer it'))) \<and>
   (strip line \<noteq> [] \<and> \<not> ((\<exists>r. strip line = CHR ''#'' # r) \<and> \<not> (\<exists>r. line = ''##'' @ r)) \<and>
    \<not> (\<exists>r. line = tab # r) \<and> CHR '':'' \<in> set line \<and> CHR ''='' \<notin> set line \<and>
    glue_multiline line it = Inl e \<longrightarrow>
      tokenizer (line # it) = ([], Some (if e = StopIteration then RuntimeError else e))) \<and>
   (strip line \<noteq> [] \<and> \<not> ((\<exists>r. strip line = CHR ''#'' # r) \<and> \<not> (\<exists>r. line = ''##'' @ r)) \<and>
    \<not> (\<exists>r. line = tab # r) \<and> \<not> (CHR '':'' \<in> set line \<and> CHR ''='' \<notin> set line) \<longrightarrow>
      tokenizer (line # it) =
        ((Tokens_expression, strip_chars [CHR '' '', CHR '';'', tab] line) # fst (tokenizer it),
         snd (tokenizer it))) \<and>
   (strip line \<noteq> [] \<and> last (strip line) \<noteq> backslash \<longrightarrow>
      glue_multiline line it = Inr (strip line, it)) \<and>
   ((\<forall>l \<in> set (line # conts). strip l \<noteq> [] \<and> last (strip l) = backslash) \<and>
    strip fin \<noteq> [] \<and> last (strip fin) \<noteq> backslash \<longrightarrow>
      glue_multiline line (conts @ fin # it) =
        Inr (join '' '' (map (\<lambda>l. strip (rstrip_chars [backslash] (strip l))) (line # conts @ [fin])),
             it))"
proof -
  have splice: "glue_multiline line it = Inr (strip line, it)"
    if "strip line \<noteq> []" "last (strip line) \<noteq> backslash"
    using that by (rule glue_multiline_plain)
  have block: "glue_multiline line (conts @ fin # it) =
        Inr (join '' '' (map (\<lambda>l. strip (rstrip_chars [backslash] (strip l))) (line # conts @ [fin])),
             it)"
    if "\<forall>l \<in> set (line # conts). strip l \<noteq> [] \<and> last (strip l) = backslash"
      "strip fin \<noteq> []" "last (strip fin) \<noteq> backslash"
    using that by (rule glue_multiline_returns)
  show ?thesis
  proof (cases "strip line = []")
    case True
    then have t: "tokenizer (line # it) = tokenizer it" by (simp add: Let_def)
    show ?thesis unfolding t by (simp add: True)
  next
    case False
    note ne = strip_nonempty_line [OF False]
    define C where "C \<longleftrightarrow> (\<exists>r. strip line = CHR ''#'' # r) \<and> \<not> (\<exists>r. line = ''##'' @ r)"
    define T where "T \<longleftrightarrow> (\<exists>r. line = tab # r)"
    define G where "G = glue_multiline line it"
    have eq: "tokenizer (line # it) =
       (if C then tokenizer it
        else if T then
          (case G of
             Inl e \<Rightarrow> generator_raise e
           | Inr (v, it') \<Rightarrow> yield (Tokens_command, v) (tokenizer it'))
        else if CHR '':'' \<in> set line \<and> CHR ''='' \<notin> set line then
          (case G of
             Inl e \<Rightarrow> generator_raise e
           | Inr (v, it') \<Rightarrow> yield (Tokens_target, v) (tokenizer it'))
        else yield (Tokens_expression, strip_chars [CHR '' '', CHR '';'', tab] line) (tokenizer it))"
      using False
      by (simp only: tokenizer.simps Let_def hd_strip_line [OF False] take2_hashes hd_tab [OF ne]
            C_def T_def G_def if_False)
    have 1: "strip line = [] \<longrightarrow> tokenizer (line # it) = tokenizer it"
      using False by (simp del: tokenizer.simps)
    have 2: "strip line \<noteq> [] \<and> C \<longrightarrow> tokenizer (line # it) = tokenizer it" by (simp add: eq del: tokenizer.simps)
    have 3: "strip line \<noteq> [] \<and> \<not> C \<and> T \<and> G = Inr (v, it') \<longrightarrow>
        tokenizer (line # it) = ((Tokens_command, v) # fst (tokenizer it'), snd (tokenizer it'))"
      by (simp add: eq yield_def del: tokenizer.simps)
    have 4: "strip line \<noteq> [] \<and> \<not> C \<and> T \<and> G = Inl e \<longrightarrow>
        tokenizer (line # it) = ([], Some (if e = StopIteration then RuntimeError else e))"
      by (simp add: eq generator_raise_def del: tokenizer.simps)
    have 5: "strip line \<noteq> [] \<and> \<not> C \<and> \<not> T \<and> CHR '':'' \<in> set line \<and> CHR ''='' \<notin> set line \<and>
        G = Inr (v, it') \<longrightarrow>
        tokenizer (line # it) = ((Tokens_target, v) # fst (tokenizer it'), snd (tokenizer it'))"
      by (simp add: eq yield_def del: tokenizer.simps)
    have 6: "strip line \<noteq> [] \<and> \<not> C \<and> \<not> T \<and> CHR '':'' \<in> set line \<and> CHR ''='' \<notin> set line \<and>
        G = Inl e \<longrightarrow>
        tokenizer (line # it) = ([], Some (if e = StopIteration then RuntimeError else e))"
      by (simp add: eq generator_raise_def del: tokenizer.simps)
    have 7: "strip line \<noteq> [] \<and> \<not> C \<and> \<not> T \<and> \<not> (CHR '':'' \<in> set line \<and> CHR ''='' \<notin> set line) \<longrightarrow>
        tokenizer (line # it) =
          ((Tokens_expression, strip_chars [CHR '' '', CHR '';'', tab] line) # fst (tokenizer it),
           snd (tokenizer it))"
      by (simp add: eq yield_def del: tokenizer.simps)
    have 8: "strip line \<noteq> [] \<and> last (strip line) \<noteq> backslash \<longrightarrow>
        glue_multiline line it = Inr (strip line, it)"
      using splice by blast
    have 9: "(\<forall>l \<in> set (line # conts). strip l \<noteq> [] \<and> last (strip l) = backslash) \<and>
        strip fin \<noteq> [] \<and> last (strip fin) \<noteq> backslash \<longrightarrow>
        glue_multiline line (conts @ fin # it) =
          Inr (join '' '' (map (\<lambda>l. strip (rstrip_chars [backslash] (strip l))) (line # conts @ [fin])),
               it)"
      using block by blast
    note g = 1 2 3 4 5 6 7
    note f = g [unfolded C_def T_def G_def] 8 9
    show ?thesis
      by (rule conjI [OF f(1) conjI [OF f(2) conjI [OF f(3) conjI [OF f(4) conjI [OF f(5)
            conjI [OF f(6) conjI [OF f(7) conjI [OF f(8) f(9)]]]]]]]])
  qed
qed

theorem tokenizer_rules_witness:
  "tokenizer [''  '', ''x''] = tokenizer [''x''] \<and>
   tokenizer [''# c'', ''x''] = tokenizer [''x''] \<and>
   tokenizer [tab # ''echo''] = ([(Tokens_command, ''echo'')], None) \<and>
   tokenizer [tab # ''echo a '' @ [backslash], '' '', ''b''] = ([], Some IndexError) \<and>
   tokenizer [''## a: b''] = ([(Tokens_target, ''## a: b'')], None) \<and>
   tokenizer [''a: b '' @ [backslash]] = ([], Some RuntimeError) \<and>
   tokenizer ['' X = 1; ''] = ([(Tokens_expression, ''X = 1'')], None) \<and>
   glue_multiline (tab # ''echo a '' @ [backslash]) ['' b  '' @ [backslash], '' c'', ''x = 1'']
     = Inr (''echo a b c'', [''x = 1''])"
proof -
  let ?cont = "tab # ''echo a '' @ [backslash]"
  let ?tgt = "''a: b '' @ [backslash]"
  have 1: "strip ''  '' = []" by code_simp
  have 2: "strip ''# c'' \<noteq> [] \<and> (\<exists>r. strip ''# c'' = CHR ''#'' # r) \<and> \<not> (\<exists>r. ''# c'' = ''##'' @ r)"
    by (simp add: strip_def isspace_def)
  have 3: "strip (tab # ''echo'') \<noteq> [] \<and>
      \<not> ((\<exists>r. strip (tab # ''echo'') = CHR ''#'' # r) \<and> \<not> (\<exists>r. tab # ''echo'' = ''##'' @ r)) \<and>
      (\<exists>r. tab # ''echo'' = tab # r)"
    by (simp add: strip_def isspace_def)
  have h3a: "last (strip (tab # ''echo'')) \<noteq> backslash" by code_simp
  have h3b: "strip (tab # ''echo'') = ''echo''" by code_simp
  have 4: "strip ?cont \<noteq> [] \<and>
      \<not> ((\<exists>r. strip ?cont = CHR ''#'' # r) \<and> \<not> (\<exists>r. ?cont = ''##'' @ r)) \<and>
      (\<exists>r. ?cont = tab # r)"
    by (simp add: strip_def isspace_def)
  have h4a: "glue_multiline ?cont ['' '', ''b''] = Inl IndexError" by code_simp
  have 5: "strip ''## a: b'' \<noteq> [] \<and>
      \<not> ((\<exists>r. strip ''## a: b'' = CHR ''#'' # r) \<and> \<not> (\<exists>r. ''## a: b'' = ''##'' @ r)) \<and>
      \<not> (\<exists>r. ''## a: b'' = tab # r) \<and> CHR '':'' \<in> set ''## a: b'' \<and> CHR ''='' \<notin> set ''## a: b''"
    by (simp add: strip_def isspace_def)
  have h5a: "glue_multiline ''## a: b'' [] = Inr (''## a: b'', [])" by code_simp
  have 6: "strip ?tgt \<noteq> [] \<and>
      \<not> ((\<exists>r. strip ?tgt = CHR ''#'' # r) \<and> \<not> (\<exists>r. ?tgt = ''##'' @ r)) \<and>
      \<not> (\<exists>r. ?tgt = tab # r) \<and> CHR '':'' \<in> set ?tgt \<and> CHR ''='' \<notin> set ?tgt"
    by (simp add: strip_def isspace_def)
  have h6a: "glue_multiline ?tgt [] = Inl StopIteration" by code_simp
  have 7: "strip '' X = 1; '' \<noteq> [] \<and>
      \<not> ((\<exists>r. strip '' X = 1; '' = CHR ''#'' # r) \<and> \<not> (\<exists>r. '' X = 1; '' = ''##'' @ r)) \<and>
      \<not> (\<exists>r. '' X = 1; '' = tab # r) \<and>
      \<not> (CHR '':'' \<in> set '' X = 1; '' \<and> CHR ''='' \<notin> set '' X = 1; '')"
    by (simp add: strip_def isspace_def)
  have h7a: "strip_chars [CHR '' '', CHR '';'', tab] '' X = 1; '' = ''X = 1''" by code_simp
  have 9: "(\<forall>l \<in> set (?cont # ['' b  '' @ [backslash]]). strip l \<noteq> [] \<and> last (strip l) = backslash) \<and>
      strip '' c'' \<noteq> [] \<and> last (strip '' c'') \<noteq> backslash"
    by code_simp
  have h9a: "join '' '' (map (\<lambda>l. strip (rstrip_chars [backslash] (strip l)))
      (?cont # ['' b  '' @ [backslash]] @ ['' c''])) = ''echo a b c''"
    by code_simp
  have e: "tokenizer [] = ([], None)" by simp
  note r1 = tokenizer_rules [of "''  ''" "[''x'']", THEN conjunct1]
  from mp [OF r1 1]
  have c1: "tokenizer [''  '', ''x''] = tokenizer [''x'']" .
  note r2 = tokenizer_rules [of "''# c''" "[''x'']", THEN conjunct2, THEN conjunct1]
  from mp [OF r2 2]
  have c2: "tokenizer [''# c'', ''x''] = tokenizer [''x'']" .
  note r8 = tokenizer_rules [of "tab # ''echo''" "[]", THEN conjunct2, THEN conjunct2, THEN conjunct2, THEN conjunct2, THEN conjunct2, THEN conjunct2, THEN conjunct2, THEN conjunct1]
  from r8 3 h3a have "glue_multiline (tab # ''echo'') [] = Inr (strip (tab # ''echo''), [])"
    by simp
  then have g3: "glue_multiline (tab # ''echo'') [] = Inr (''echo'', [])" unfolding h3b .
  note r3 = tokenizer_rules [of "tab # ''echo''" "[]" "''echo''" "[]", THEN conjunct2, THEN conjunct2, THEN conjunct1]
  from r3 3 g3 have "tokenizer [tab # ''echo''] =
      ((Tokens_command, ''echo'') # fst (tokenizer []), snd (tokenizer []))"
    by (simp del: tokenizer.simps)
  then have c3: "tokenizer [tab # ''echo''] = ([(Tokens_command, ''echo'')], None)"
    unfolding e by simp
  note r4 = tokenizer_rules [of ?cont "['' '', ''b'']" _ _ IndexError, THEN conjunct2, THEN conjunct2, THEN conjunct2, THEN conjunct1]
  from r4 4 h4a have "tokenizer [?cont, '' '', ''b''] =
      ([], Some (if IndexError = StopIteration then RuntimeError else IndexError))"
    by (simp del: tokenizer.simps)
  then have c4: "tokenizer [?cont, '' '', ''b''] = ([], Some IndexError)" by simp
  note r5 = tokenizer_rules [of "''## a: b''" "[]" "''## a: b''" "[]", THEN conjunct2, THEN conjunct2, THEN conjunct2, THEN conjunct2, THEN conjunct1]
  from r5 5 h5a have "tokenizer [''## a: b''] =
      ((Tokens_target, ''## a: b'') # fst (tokenizer []), snd (tokenizer []))"
    by (simp del: tokenizer.simps)
  then have c5: "tokenizer [''## a: b''] = ([(Tokens_target, ''## a: b'')], None)"
    unfolding e by simp
  note r6 = tokenizer_rules [of ?tgt "[]" _ _ StopIteration, THEN conjunct2, THEN conjunct2, THEN conjunct2, THEN conjunct2, THEN conjunct2, THEN conjunct1]
  from r6 6 h6a have "tokenizer [?tgt] =
      ([], Some (if StopIteration = StopIteration then RuntimeError else StopIteration))"
    by (simp del: tokenizer.simps)
  then have c6: "tokenizer [?tgt] = ([], Some RuntimeError)" by simp
  note r7 = tokenizer_rules [of "'' X = 1; ''" "[]", THEN conjunct2, THEN conjunct2, THEN conjunct2, THEN conjunct2, THEN conjunct2, THEN conjunct2, THEN conjunct1]
  from mp [OF r7 7] have "tokenizer ['' X = 1; ''] =
      ((Tokens_expression, strip_chars [CHR '' '', CHR '';'', tab] '' X = 1; '') # fst (tokenizer []),
       snd (tokenizer []))" .
  then have c7: "tokenizer ['' X = 1; ''] = ([(Tokens_expression, ''X = 1'')], None)"
    unfolding e h7a by simp
  note r9 = tokenizer_rules [of ?cont "[''x = 1'']" _ _ _ "['' b  '' @ [backslash]]" "'' c''",
      THEN conjunct2, THEN conjunct2, THEN conjunct2, THEN conjunct2, THEN conjunct2, THEN conjunct2, THEN conjunct2, THEN conjunct2]
  from mp [OF r9 9]
  have "glue_multiline ?cont (['' b  '' @ [backslash]] @ '' c'' # [''x = 1'']) =
      Inr (join '' '' (map (\<lambda>l. strip (rstrip_chars [backslash] (strip l)))
        (?cont # ['' b  '' @ [backslash]] @ ['' c''])), [''x = 1''])" .
  then have c9: "glue_multiline ?cont ['' b  '' @ [backslash], '' c'', ''x = 1'']
      = Inr (''echo a b c'', [''x = 1''])"
    unfolding h9a by simp
  from c1 c2 c3 c4 c5 c6 c7 c9 show ?thesis by (intro conjI)
qed

text \<open>
  Claim C4 as stated fails for a line that opens a splice which does not return: the
  tokenizer yields no token for a tab line ending in a backslash that is followed by a blank
  line, nor for a target line ending in a backslash at the end of the input.
\<close>

theorem spliced_line_without_token_counterexample:
  "hd (tab # ''echo a '' @ [backslash]) = tab \<and>
   tokenizer [tab # ''echo a '' @ [backslash], '' '', ''b''] = ([], Some IndexError) \<and>
   CHR '':'' \<in> set (''a: b '' @ [backslash]) \<and> CHR ''='' \<notin> set (''a: b '' @ [backslash]) \<and>
   tokenizer [''a: b '' @ [backslash]] = ([], Some RuntimeError)"
  by code_simp

theorem continuation_at_end_of_input_witness:
  "tokenizer [''x = 1''] = ([(Tokens_expression, ''x = 1'')], None) \<and>
   tokenizer [''x = 1'', ''a: b '' @ [backslash], ''c '' @ [backslash]]
     = ([(Tokens_expression, ''x = 1'')], Some RuntimeError)"
proof -
  have h: "tokenizer [''x = 1''] = ([(Tokens_expression, ''x = 1'')], None) \<and>
    strip (''a: b '' @ [backslash]) \<noteq> [] \<and>
    \<not> (hd (strip (''a: b '' @ [backslash])) = CHR ''#'' \<and> take 2 (''a: b '' @ [backslash]) \<noteq> ''##'') \<and>
    (hd (''a: b '' @ [backslash]) = tab \<or>
       (CHR '':'' \<in> set (''a: b '' @ [backslash]) \<and> CHR ''='' \<notin> set (''a: b '' @ [backslash]))) \<and>
    (\<forall>l \<in> set ((''a: b '' @ [backslash]) # [''c '' @ [backslash]]).
       strip l \<noteq> [] \<and> last (strip l) = backslash)"
    by code_simp
  from continuation_at_end_of_input [of "[''x = 1'']" "[(Tokens_expression, ''x = 1'')]"
      "''a: b '' @ [backslash]" "[''c '' @ [backslash]]"] h
  show ?thesis by simp
qed

theorem blank_continuation_witness:
  "tokenizer [tab # ''echo a '' @ [backslash], ''   '', ''b''] = ([], Some IndexError) \<and>
   glue_multiline (''a: b '' @ [backslash]) [''c'', ''d''] = Inr (''a: b c'', [''d'']) \<and>
   strip ''c'' \<noteq> []"
proof -
  have h: "tokenizer [] = ([], None) \<and>
    strip (tab # ''echo a '' @ [backslash]) \<noteq> [] \<and>
    \<not> (hd (strip (tab # ''echo a '' @ [backslash])) = CHR ''#'' \<and>
       take 2 (tab # ''echo a '' @ [backslash]) \<noteq> ''##'') \<and>
    (hd (tab # ''echo a '' @ [backslash]) = tab \<or>
       (CHR '':'' \<in> set (tab # ''echo a '' @ [backslash]) \<and>
        CHR ''='' \<notin> set (tab # ''echo a '' @ [backslash]))) \<and>
    (\<forall>l \<in> set ((tab # ''echo a '' @ [backslash]) # []).
       strip l \<noteq> [] \<and> last (strip l) = backslash) \<and>
    strip ''   '' = []"
    by code_simp
  have g: "glue_multiline (''a: b '' @ [backslash]) [''c'', ''d''] = Inr (''a: b c'', [''d''])"
    by code_simp
  from blank_continuation [of "[]" "[]" "tab # ''echo a '' @ [backslash]" "[]" "''   ''" "[''b'']"
      "''a: b '' @ [backslash]" "[''c'', ''d'']" "''a: b c''" "[''d'']"] h g
  show ?thesis by auto
qed

section \<open>Properties of the pattern\<close>

lemma rmatch_PlusG_reaches:
  "rmatch (PlusG p) s g K = Some m \<Longrightarrow> \<exists>s'. K s' g = Some m \<and> suffix s' s"
proof (induction s)
  case Nil
  then show ?case by simp
next
  case (Cons c cs)
  then show ?case
    by (auto split: if_splits option.splits simp: suffix_Cons)
qed

lemma rmatch_PlusL_reaches:
  "rmatch (PlusL p) s g K = Some m \<Longrightarrow> \<exists>s'. K s' g = Some m \<and> suffix s' s"
proof (induction s)
  case Nil
  then show ?case by simp
next
  case (Cons c cs)
  then show ?case
    by (auto split: if_splits option.splits simp: suffix_Cons)
qed

lemma rmatch_reaches:
  "rmatch r s g K = Some m \<Longrightarrow>
   \<exists>s' g'. K s' g' = Some m \<and> suffix s' s \<and> (\<forall>n. n \<notin> group_ids r \<longrightarrow> g' n = g n)"
proof (induction r arbitrary: s g K)
  case (Chr p)
  then show ?case by (cases s) (auto split: if_splits simp: suffix_Cons)
next
  case (Seq r1 r2)
  from Seq.prems have "rmatch r1 s g (\<lambda>s' g'. rmatch r2 s' g' K) = Some m" by simp
  from Seq.IH(1) [OF this] obtain s1 g1 where
    1: "rmatch r2 s1 g1 K = Some m" "suffix s1 s" "\<forall>n. n \<notin> group_ids r1 \<longrightarrow> g1 n = g n"
    by blast
  from Seq.IH(2) [OF 1(1)] obtain s2 g2 where
    2: "K s2 g2 = Some m" "suffix s2 s1" "\<forall>n. n \<notin> group_ids r2 \<longrightarrow> g2 n = g1 n"
    by blast
  from 1 2 have "suffix s2 s \<and> (\<forall>n. n \<notin> group_ids (Seq r1 r2) \<longrightarrow> g2 n = g n)"
    by (auto intro: suffix_order.trans)
  with 2(1) show ?case by blast
next
  case (Opt r)
  show ?case
  proof (cases "rmatch r s g K")
    case None
    with Opt.prems have "K s g = Some m" by simp
    then show ?thesis by auto
  next
    case (Some a)
    with Opt.prems have "rmatch r s g K = Some m" by simp
    from Opt.IH [OF this] show ?thesis by simp
  qed
next
  case (PlusG p)
  from rmatch_PlusG_reaches [OF PlusG] show ?case by auto
next
  case (PlusL p)
  from rmatch_PlusL_reaches [OF PlusL] show ?case by auto
next
  case (Group k r)
  from Group.prems have
    "rmatch r s g (\<lambda>s' g'. K s' (g'(k \<mapsto> take (length s - length s') s))) = Some m"
    by simp
  from Group.IH [OF this] obtain s' g' where
    1: "K s' (g'(k \<mapsto> take (length s - length s') s)) = Some m" "suffix s' s"
       "\<forall>n. n \<notin> group_ids r \<longrightarrow> g' n = g n"
    by blast
  then have "\<forall>n. n \<notin> group_ids (Group k r) \<longrightarrow> (g'(k \<mapsto> take (length s - length s') s)) n = g n"
    by simp
  with 1(1,2) show ?case by blast
qed

lemma rmatch_PlusG_total:
  "\<forall>s g. K s g \<noteq> None \<Longrightarrow> s \<noteq> [] \<Longrightarrow> p (hd s) \<Longrightarrow>
   rmatch (PlusG p) s g K = K (dropWhile p s) g"
proof (induction s)
  case Nil
  then show ?case by simp
next
  case (Cons c cs)
  show ?case
  proof (cases "cs \<noteq> [] \<and> p (hd cs)")
    case True
    with Cons have "rmatch (PlusG p) cs g K = K (dropWhile p cs) g" by simp
    moreover from Cons.prems have "K (dropWhile p cs) g \<noteq> None" by blast
    ultimately show ?thesis using Cons.prems(3) by (auto split: option.splits)
  next
    case False
    then have "rmatch (PlusG p) cs g K = None" "dropWhile p cs = cs"
      by (cases cs; simp)+
    moreover from Cons.prems have "K cs g \<noteq> None" by blast
    ultimately show ?thesis using Cons.prems(3) by (auto split: option.splits)
  qed
qed

lemma rmatch_PlusG_fail:
  "s = [] \<or> \<not> p (hd s) \<Longrightarrow> rmatch (PlusG p) s g K = None"
  by (cases s) auto

lemma rmatch_Opt_total: "\<forall>s g. K s g \<noteq> None \<Longrightarrow> rmatch (Opt r) s g K \<noteq> None"
  by (auto split: option.splits)

lemma rmatch_Seq_Opt_total:
  "\<forall>s g. rmatch r2 s g K \<noteq> None \<Longrightarrow> rmatch (Seq (Opt r) r2) s g K \<noteq> None"
  by (auto split: option.splits)

lemma tail_pattern_split:
  "tail_pattern = Seq opt_space (Seq (Opt (Group 2 (PlusG (\<lambda>c. c \<noteq> CHR ''|'' \<and> c \<noteq> CHR ''#'')))) after_required)"
  by (simp add: tail_pattern_def after_required_def)

lemma after_required_total: "rmatch after_required s g (\<lambda>s' g'. Some g') \<noteq> None"
  unfolding after_required_def opt_space_def
  by (intro rmatch_Seq_Opt_total allI rmatch_Opt_total) simp

lemma after_required_no_order_only:
  assumes "s = [] \<or> hd s = CHR ''#''" and "g 3 = None"
    and "rmatch after_required s g (\<lambda>s' g'. Some g') = Some m"
  shows "m 3 = None"
proof -
  define rest where "rest = Seq opt_space (Seq opt_space (Opt (Group 4 doc_pattern)))"
  have "rmatch after_required s g (\<lambda>s' g'. Some g') = rmatch rest s g (\<lambda>s' g'. Some g')"
    using assms(1)
    by (cases s) (auto simp: after_required_def rest_def opt_space_def isspace_def)
  with assms(3) have "rmatch rest s g (\<lambda>s' g'. Some g') = Some m" by simp
  from rmatch_reaches [OF this] obtain g' where "g' = m" "\<forall>n. n \<notin> group_ids rest \<longrightarrow> g' n = g n"
    by auto
  moreover have "3 \<notin> group_ids rest"
    by (simp add: rest_def opt_space_def doc_pattern_def)
  ultimately show ?thesis using assms(2) by auto
qed

lemma required_group_stops:
  fixes p :: "char \<Rightarrow> bool"
  assumes tot: "\<forall>s g. K s g \<noteq> None"
    and m: "rmatch (Opt (Group n (PlusG p))) s g K = Some m"
  shows "\<exists>s' g'. K s' g' = Some m \<and> suffix s' s \<and> (s' = [] \<or> \<not> p (hd s')) \<and>
           (\<forall>k. k \<noteq> n \<longrightarrow> g' k = g k)"
proof (cases "s \<noteq> [] \<and> p (hd s)")
  case True
  let ?K = "\<lambda>s' g'. K s' (g'(n \<mapsto> take (length s - length s') s))"
  have "\<forall>s g. ?K s g \<noteq> None" using tot by simp
  from rmatch_PlusG_total [OF this, of s p g] True
  have "rmatch (PlusG p) s g ?K = ?K (dropWhile p s) g" by simp
  moreover have "?K (dropWhile p s) g \<noteq> None" using tot by simp
  ultimately have "?K (dropWhile p s) g = Some m" using m by (auto split: option.splits)
  moreover have "suffix (dropWhile p s) s" by (rule suffix_dropWhile)
  moreover have "dropWhile p s = [] \<or> \<not> p (hd (dropWhile p s))"
    using hd_dropWhile by blast
  ultimately show ?thesis by (intro exI conjI) (assumption | simp)+
next
  case False
  then have "rmatch (PlusG p) s g (\<lambda>s' g'. K s' (g'(n \<mapsto> take (length s - length s') s))) = None"
    by (intro rmatch_PlusG_fail) simp
  with m have "K s g = Some m" by simp
  with False show ?thesis by (intro exI [of _ s] exI [of _ g]) auto
qed

lemma no_pipe_no_order_only:
  assumes np: "CHR ''|'' \<notin> set s" and m: "re_match target_pattern s = Some m"
  shows "m 3 = None"
proof -
  let ?K = "\<lambda>(s' :: string) (g' :: groups). Some g'"
  let ?p2 = "\<lambda>c. c \<noteq> CHR ''|'' \<and> c \<noteq> CHR ''#''"
  from m have "rmatch (Group 1 (PlusL dot)) s (\<lambda>n. None)
      (\<lambda>s' g'. rmatch (Seq (Chr (\<lambda>c. c = CHR '':'')) tail_pattern) s' g' ?K) = Some m"
    by (simp add: re_match_def target_pattern_def)
  from rmatch_reaches [OF this] obtain s1 g1 where
    1: "rmatch (Seq (Chr (\<lambda>c. c = CHR '':'')) tail_pattern) s1 g1 ?K = Some m"
       "suffix s1 s" "g1 3 = None"
    by auto
  from 1(1) obtain s1' where s1: "s1 = CHR '':'' # s1'"
    and 2: "rmatch tail_pattern s1' g1 ?K = Some m"
    by (cases s1) (auto split: if_splits)
  from 2 have "rmatch opt_space s1' g1
      (\<lambda>s' g'. rmatch (Seq (Opt (Group 2 (PlusG ?p2))) after_required) s' g' ?K) = Some m"
    by (simp add: tail_pattern_split)
  from rmatch_reaches [OF this] obtain s2 g2 where
    3: "rmatch (Seq (Opt (Group 2 (PlusG ?p2))) after_required) s2 g2 ?K = Some m"
       "suffix s2 s1'" "g2 3 = g1 3"
    by (auto simp: opt_space_def)
  from 3(1) have "rmatch (Opt (Group 2 (PlusG ?p2))) s2 g2
      (\<lambda>s' g'. rmatch after_required s' g' ?K) = Some m"
    by simp
  from required_group_stops [OF _ this] after_required_total obtain s3 g3 where
    4: "rmatch after_required s3 g3 ?K = Some m" "suffix s3 s2"
       "s3 = [] \<or> \<not> ?p2 (hd s3)" "g3 3 = g2 3"
    by auto
  have "set s3 \<subseteq> set s2" using 4(2) by (rule set_mono_suffix)
  also have "set s2 \<subseteq> set s1'" using 3(2) by (rule set_mono_suffix)
  also have "set s1' \<subseteq> set s1" using s1 by auto
  also have "set s1 \<subseteq> set s" using 1(2) by (rule set_mono_suffix)
  finally have "set s3 \<subseteq> set s" .
  with np have "CHR ''|'' \<notin> set s3" by auto
  with 4(3) have "s3 = [] \<or> hd s3 = CHR ''#''" by (cases s3) auto
  from after_required_no_order_only [OF this _ 4(1)] 4(4) 3(3) 1(3) show ?thesis by simp
qed

section \<open>Properties of the parser\<close>

lemma parse_target_sorted:
  "parse_target token it = Inr ((k, Dict d), it') \<Longrightarrow>
   sorted (fst (deps d)) \<and> sorted (snd (deps d))"
  by (auto simp: parse_target_def split: option.splits sum.splits)

lemma parse_for_sorted:
  "parse_for toks err = Inr a \<Longrightarrow> (k, Dict d) \<in> set a \<Longrightarrow>
   sorted (fst (deps d)) \<and> sorted (snd (deps d))"
proof (induction toks err arbitrary: a rule: parse_for.induct)
  case 1
  then show ?case by simp
next
  case (2 e)
  then show ?case by simp
next
  case (3 token ts err)
  show ?case
  proof (cases "fst token = Tokens_target")
    case True
    with "3.prems"(1) obtain entry it' a' where
      pt: "parse_target token (ts, err) = Inr (entry, it')"
      and pf: "parse_for (fst it') (snd it') = Inr a'" and a: "a = entry # a'"
      by (auto split: sum.splits)
    from "3.prems"(2) a consider "entry = (k, Dict d)" | "(k, Dict d) \<in> set a'" by auto
    then show ?thesis
    proof cases
      case 1
      with pt show ?thesis by (auto dest: parse_target_sorted)
    next
      case 2
      from "3.IH"(1) [OF True pt refl pf 2] show ?thesis .
    qed
  next
    case False
    with "3.prems"(1) obtain a' where pf: "parse_for ts err = Inr a'"
      and a: "a = (fst token, Str (snd token)) # a'"
      by (auto split: sum.splits)
    with "3.prems"(2) have "(k, Dict d) \<in> set a'" by auto
    from "3.IH"(2) [OF False pf this] show ?thesis .
  qed
qed

text \<open>
  Claim C3: the target token \<open>build: a c b | o2 o1 ## builds it\<close> parses to the name
  \<open>build\<close>, the required dependencies \<open>a, b, c\<close>, the order-only dependencies
  \<open>o1, o2\<close> and the documentation \<open>builds it\<close>; and in every target entry of an AST
  that \<open>parse\<close> returns, both dependency lists are sorted.
\<close>

theorem target_line_example_and_sorted:
  "parse_target (Tokens_target, ''build: a c b | o2 o1 ## builds it'') ([], None) =
     Inr ((Tokens_target,
           Dict \<lparr>target = ''build'', deps = ([''a'', ''b'', ''c''], [''o1'', ''o2'']),
                 docs = ''builds it'', body = []\<rparr>), ([], None)) \<and>
   (parse fd = Inr a \<and> (k, Dict d) \<in> set a \<longrightarrow>
      sorted (fst (deps d)) \<and> sorted (snd (deps d)))"
proof
  show "parse_target (Tokens_target, ''build: a c b | o2 o1 ## builds it'') ([], None) =
     Inr ((Tokens_target,
           Dict \<lparr>target = ''build'', deps = ([''a'', ''b'', ''c''], [''o1'', ''o2'']),
                 docs = ''builds it'', body = []\<rparr>), ([], None))"
    by code_simp
  show "parse fd = Inr a \<and> (k, Dict d) \<in> set a \<longrightarrow>
      sorted (fst (deps d)) \<and> sorted (snd (deps d))"
    by (auto simp: parse_def Let_def dest: parse_for_sorted)
qed

theorem target_line_example_and_sorted_witness:
  "parse [''x: zz y  y b''] =
     Inr [(Tokens_target,
           Dict \<lparr>target = ''x'', deps = ([''b'', ''y'', ''y'', ''zz''], []), docs = [], body = []\<rparr>)] \<and>
   sorted [''b'', ''y'', ''y'', ''zz''] \<and> sorted ([] :: string list)"
proof -
  have p: "parse [''x: zz y  y b''] =
     Inr [(Tokens_target,
           Dict \<lparr>target = ''x'', deps = ([''b'', ''y'', ''y'', ''zz''], []), docs = [], body = []\<rparr>)]"
    by code_simp
  from target_line_example_and_sorted [of "[''x: zz y  y b'']" _ Tokens_target
      "\<lparr>target = ''x'', deps = ([''b'', ''y'', ''y'', ''zz''], []), docs = [], body = []\<rparr>"] p
  show ?thesis by simp
qed

section \<open>The two dependency lists\<close>

lemma split_space: "isspace c \<Longrightarrow> split (c # s) = split s"
  by (simp add: split_def)

lemma split_dropWhile: "split (dropWhile isspace s) = split s"
  by (induction s) (simp_all add: split_space)

lemma split_acc_snoc_space: "isspace c \<Longrightarrow> split_acc w (s @ [c]) = split_acc w s"
  by (induction s arbitrary: w) simp_all

lemma split_acc_append_spaces:
  "\<forall>c \<in> set sp. isspace c \<Longrightarrow> split_acc w (s @ sp) = split_acc w s"
proof (induction sp rule: rev_induct)
  case Nil
  show ?case by simp
next
  case (snoc x xs)
  have "split_acc w (s @ xs @ [x]) = split_acc w ((s @ xs) @ [x])" by simp
  also have "\<dots> = split_acc w (s @ xs)" using snoc.prems by (intro split_acc_snoc_space) simp
  also have "\<dots> = split_acc w s" using snoc by simp
  finally show ?case .
qed

lemma rstrip_decomp: "s = rev (dropWhile P (rev s)) @ rev (takeWhile P (rev s))"
  by (metis rev_append rev_rev_ident takeWhile_dropWhile_id)

lemma split_strip: "split (strip s) = split s"
proof -
  let ?t = "dropWhile isspace s"
  let ?a = "rev (dropWhile isspace (rev ?t))"
  let ?b = "rev (takeWhile isspace (rev ?t))"
  have d: "?t = ?a @ ?b" by (rule rstrip_decomp)
  have "split_acc [] (?a @ ?b) = split_acc [] ?a"
    by (rule split_acc_append_spaces) (auto dest: set_takeWhileD)
  with arg_cong [OF d, of "split_acc []"] have "split_acc [] ?t = split_acc [] ?a" by simp
  then have "split ?a = split ?t" by (simp add: split_def)
  then show ?thesis by (simp add: strip_def split_dropWhile)
qed

lemma dep_list_of_group:
  fixes req :: string
  defines "r \<equiv> (if req \<noteq> [] \<and> isspace (hd req) then tl req else req)"
  shows "(case (if r = [] then None else Some r) of None \<Rightarrow> []
          | Some d \<Rightarrow> if d = [] then [] else sort (split (strip d))) = sort (split req)"
proof -
  have 1: "split r = split req"
    unfolding r_def by (cases req) (simp_all add: split_space)
  show ?thesis
  proof (cases "r = []")
    case True
    with 1 have "split req = []" by (simp add: split_def)
    with True show ?thesis by simp
  next
    case False
    then show ?thesis by (simp add: split_strip 1)
  qed
qed

lemma rmatch_Opt_Chr:
  "\<forall>s g. K s g \<noteq> None \<Longrightarrow>
   rmatch (Opt (Chr p)) s g K = K (if s \<noteq> [] \<and> p (hd s) then tl s else s) g"
proof (cases s)
  case Nil
  then show ?thesis by simp
next
  case (Cons c cs)
  assume tot: "\<forall>s g. K s g \<noteq> None"
  then have "K cs g \<noteq> None" by blast
  with Cons show ?thesis by (auto split: option.splits)
qed

lemma take_length_dropWhile: "take (length s - length (dropWhile p s)) s = takeWhile p s"
proof -
  have "length s = length (takeWhile p s) + length (dropWhile p s)"
    by (metis length_append takeWhile_dropWhile_id)
  then have "length s - length (dropWhile p s) = length (takeWhile p s)" by simp
  then show ?thesis by (metis takeWhile_eq_take)
qed

lemma rmatch_Opt_Group_PlusG:
  fixes p :: "char \<Rightarrow> bool"
  assumes tot: "\<forall>s g. K s g \<noteq> None"
  shows "rmatch (Opt (Group n (PlusG p))) s g K =
     (if s \<noteq> [] \<and> p (hd s) then K (dropWhile p s) (g(n \<mapsto> takeWhile p s)) else K s g)"
proof (cases "s \<noteq> [] \<and> p (hd s)")
  case True
  let ?K = "\<lambda>s' g'. K s' (g'(n \<mapsto> take (length s - length s') s))"
  have "\<forall>s g. ?K s g \<noteq> None" using tot by simp
  from rmatch_PlusG_total [OF this, of s p g] True
  have "rmatch (PlusG p) s g ?K = ?K (dropWhile p s) g" by simp
  moreover have "?K (dropWhile p s) g \<noteq> None" using tot by simp
  ultimately show ?thesis using True
    by (auto simp: take_length_dropWhile split: option.splits)
next
  case False
  then have "rmatch (PlusG p) s g (\<lambda>s' g'. K s' (g'(n \<mapsto> take (length s - length s') s))) = None"
    by (intro rmatch_PlusG_fail) simp
  with False show ?thesis by auto
qed

lemma takeWhile_stop:
  "\<forall>x \<in> set a. P x \<Longrightarrow> b = [] \<or> \<not> P (hd b) \<Longrightarrow>
   takeWhile P (a @ b) = a \<and> dropWhile P (a @ b) = b"
  by (induction a) (cases b; auto)+

lemma rmatch_Seq_opt_space:
  "\<forall>s g. rmatch r s g K \<noteq> None \<Longrightarrow>
   rmatch (Seq opt_space r) s g K =
     rmatch r (if s \<noteq> [] \<and> isspace (hd s) then tl s else s) g K"
  unfolding opt_space_def rmatch.simps(3) by (rule rmatch_Opt_Chr)

lemma rmatch_Seq_Opt_Chr:
  "\<forall>s g. rmatch r s g K \<noteq> None \<Longrightarrow>
   rmatch (Seq (Opt (Chr p)) r) s g K =
     rmatch r (if s \<noteq> [] \<and> p (hd s) then tl s else s) g K"
  unfolding rmatch.simps(3) by (rule rmatch_Opt_Chr)

lemma rmatch_Seq_Opt_Group:
  fixes p :: "char \<Rightarrow> bool"
  shows "\<forall>s g. rmatch r s g K \<noteq> None \<Longrightarrow>
   rmatch (Seq (Opt (Group n (PlusG p))) r) s g K =
     (if s \<noteq> [] \<and> p (hd s) then rmatch r (dropWhile p s) (g(n \<mapsto> takeWhile p s)) K
      else rmatch r s g K)"
  unfolding rmatch.simps(3) by (rule rmatch_Opt_Group_PlusG)

lemma after_required_groups:
  assumes "rmatch after_required s g (\<lambda>s' g'. Some g') = Some m"
  shows "m 1 = g 1 \<and> m 2 = g 2"
proof -
  from rmatch_reaches [OF assms] obtain g' where
    "g' = m" "\<forall>n. n \<notin> group_ids after_required \<longrightarrow> g' n = g n"
    by auto
  moreover have "1 \<notin> group_ids after_required \<and> 2 \<notin> group_ids after_required"
    by (simp add: after_required_def opt_space_def doc_pattern_def)
  ultimately show ?thesis by auto
qed

lemma after_order_only_groups:
  "\<exists>m. rmatch (Seq opt_space (Seq opt_space (Opt (Group 4 doc_pattern)))) s g (\<lambda>s' g'. Some g')
          = Some m \<and> m 3 = g 3"
proof -
  let ?r = "Seq opt_space (Seq opt_space (Opt (Group 4 doc_pattern)))"
  have "rmatch ?r s g (\<lambda>s' g'. Some g') \<noteq> None"
    unfolding opt_space_def
    by (intro rmatch_Seq_Opt_total allI rmatch_Opt_total) simp
  then obtain m where m: "rmatch ?r s g (\<lambda>s' g'. Some g') = Some m" by auto
  from rmatch_reaches [OF m] obtain g' where
    "g' = m" "\<forall>n. n \<notin> group_ids ?r \<longrightarrow> g' n = g n"
    by auto
  moreover have "3 \<notin> group_ids ?r" by (simp add: opt_space_def doc_pattern_def)
  ultimately have "m 3 = g 3" by auto
  with m show ?thesis by blast
qed

lemma after_required_order_only:
  assumes ord: "CHR ''#'' \<notin> set ord" and rest: "rest = [] \<or> hd rest = CHR ''#''"
  shows "\<exists>m. rmatch after_required (CHR ''|'' # ord @ rest) g (\<lambda>s' g'. Some g') = Some m \<and>
           m 3 = (if (if ord \<noteq> [] \<and> isspace (hd ord) then tl ord else ord) = [] then g 3
                  else Some (if ord \<noteq> [] \<and> isspace (hd ord) then tl ord else ord))"
proof -
  let ?K = "\<lambda>(s' :: string) (g' :: groups). Some g'"
  let ?p3 = "\<lambda>c. c \<noteq> CHR ''#''"
  define r5 where "r5 = Seq opt_space (Seq opt_space (Opt (Group 4 doc_pattern)))"
  define r4 where "r4 = Seq (Opt (Group 3 (PlusG ?p3))) r5"
  define r3 where "r3 = Seq opt_space r4"
  define r2 where "r2 = Seq (Opt (Chr (\<lambda>c. c = CHR ''|''))) r3"
  define o' where "o' = (if ord \<noteq> [] \<and> isspace (hd ord) then tl ord else ord)"
  have ar: "after_required = Seq opt_space r2"
    by (simp add: after_required_def r2_def r3_def r4_def r5_def)
  have t5: "\<forall>s g. rmatch r5 s g ?K \<noteq> None"
    unfolding r5_def opt_space_def
    by (intro rmatch_Seq_Opt_total allI rmatch_Opt_total) simp
  have t4: "\<forall>s g. rmatch r4 s g ?K \<noteq> None"
    unfolding r4_def using t5 by (intro rmatch_Seq_Opt_total allI) simp
  have t3: "\<forall>s g. rmatch r3 s g ?K \<noteq> None"
    unfolding r3_def opt_space_def using t4 by (intro rmatch_Seq_Opt_total allI) simp
  have t2: "\<forall>s g. rmatch r2 s g ?K \<noteq> None"
    unfolding r2_def using t3 by (intro rmatch_Seq_Opt_total allI) simp
  have nsp: "\<not> isspace (CHR ''|'')" "\<not> isspace (CHR ''#'')" by (simp_all add: isspace_def)
  have o: "(if ord @ rest \<noteq> [] \<and> isspace (hd (ord @ rest)) then tl (ord @ rest) else ord @ rest)
           = o' @ rest"
    using rest nsp unfolding o'_def by (cases ord; cases rest) auto
  have o'set: "CHR ''#'' \<notin> set o'"
    using ord unfolding o'_def by (cases ord) auto
  then have "\<forall>x \<in> set o'. ?p3 x" by auto
  moreover have "rest = [] \<or> \<not> ?p3 (hd rest)" using rest by auto
  ultimately have "takeWhile ?p3 (o' @ rest) = o' \<and> dropWhile ?p3 (o' @ rest) = rest"
    by (rule takeWhile_stop)
  then have tw: "takeWhile ?p3 (o' @ rest) = o'" "dropWhile ?p3 (o' @ rest) = rest"
    by simp_all
  have hd: "(o' @ rest \<noteq> [] \<and> ?p3 (hd (o' @ rest))) = (o' \<noteq> [])"
    using rest o'set by (cases o'; cases rest) auto
  have "rmatch after_required (CHR ''|'' # ord @ rest) g ?K =
        rmatch r2 (CHR ''|'' # ord @ rest) g ?K"
    unfolding ar by (simp only: rmatch_Seq_opt_space [OF t2]) (simp add: nsp)
  also have "\<dots> = rmatch r3 (ord @ rest) g ?K"
    unfolding r2_def by (simp only: rmatch_Seq_Opt_Chr [OF t3]) simp
  also have "\<dots> = rmatch r4 (o' @ rest) g ?K"
    unfolding r3_def by (simp only: rmatch_Seq_opt_space [OF t4] o)
  also have "\<dots> = (if o' \<noteq> [] then rmatch r5 rest (g(3 \<mapsto> o')) ?K else rmatch r5 rest g ?K)"
    unfolding r4_def by (simp only: rmatch_Seq_Opt_Group [OF t5] hd tw) simp
  finally have e: "rmatch after_required (CHR ''|'' # ord @ rest) g ?K =
      (if o' \<noteq> [] then rmatch r5 rest (g(3 \<mapsto> o')) ?K else rmatch r5 rest g ?K)" .
  show ?thesis
  proof (cases "o' = []")
    case True
    from after_order_only_groups [of rest g] obtain m where
      "rmatch r5 rest g ?K = Some m" "m 3 = g 3" unfolding r5_def by blast
    with e True show ?thesis unfolding o'_def [symmetric] by simp
  next
    case False
    from after_order_only_groups [of rest "g(3 \<mapsto> o')"] obtain m where
      "rmatch r5 rest (g(3 \<mapsto> o')) ?K = Some m" "m 3 = Some o'" unfolding r5_def by auto
    with e False show ?thesis unfolding o'_def [symmetric] by simp
  qed
qed

lemma tail_pattern_required:
  assumes req: "CHR ''|'' \<notin> set req" "CHR ''#'' \<notin> set req"
    and mid: "mid = [] \<or> hd mid = CHR ''|'' \<or> hd mid = CHR ''#''"
  shows "rmatch tail_pattern (req @ mid) g (\<lambda>s' g'. Some g') =
         rmatch after_required mid
           (if (if req \<noteq> [] \<and> isspace (hd req) then tl req else req) = [] then g
            else g(2 \<mapsto> (if req \<noteq> [] \<and> isspace (hd req) then tl req else req)))
           (\<lambda>s' g'. Some g')"
proof -
  let ?K = "\<lambda>(s' :: string) (g' :: groups). Some g'"
  let ?p2 = "\<lambda>c. c \<noteq> CHR ''|'' \<and> c \<noteq> CHR ''#''"
  define r' where "r' = (if req \<noteq> [] \<and> isspace (hd req) then tl req else req)"
  define r1 where "r1 = Seq (Opt (Group 2 (PlusG ?p2))) after_required"
  have tp: "tail_pattern = Seq opt_space r1"
    by (simp add: tail_pattern_split r1_def)
  have ta: "\<forall>s g. rmatch after_required s g ?K \<noteq> None"
    using after_required_total by blast
  have t1: "\<forall>s g. rmatch r1 s g ?K \<noteq> None"
    unfolding r1_def using ta by (intro rmatch_Seq_Opt_total allI) simp
  have nsp: "\<not> isspace (CHR ''|'')" "\<not> isspace (CHR ''#'')" by (simp_all add: isspace_def)
  have o: "(if req @ mid \<noteq> [] \<and> isspace (hd (req @ mid)) then tl (req @ mid) else req @ mid)
           = r' @ mid"
    using mid nsp unfolding r'_def by (cases req; cases mid) auto
  have r'set: "CHR ''|'' \<notin> set r'" "CHR ''#'' \<notin> set r'"
    using req unfolding r'_def by (cases req; auto)+
  have "\<forall>x \<in> set r'. ?p2 x" using r'set by auto
  moreover have "mid = [] \<or> \<not> ?p2 (hd mid)" using mid by auto
  ultimately have "takeWhile ?p2 (r' @ mid) = r' \<and> dropWhile ?p2 (r' @ mid) = mid"
    by (rule takeWhile_stop)
  then have tw: "takeWhile ?p2 (r' @ mid) = r'" "dropWhile ?p2 (r' @ mid) = mid"
    by simp_all
  have hd: "(r' @ mid \<noteq> [] \<and> ?p2 (hd (r' @ mid))) = (r' \<noteq> [])"
    using mid r'set by (cases r'; cases mid) auto
  have "rmatch tail_pattern (req @ mid) g ?K = rmatch r1 (r' @ mid) g ?K"
    unfolding tp by (simp only: rmatch_Seq_opt_space [OF t1] o)
  also have "\<dots> = (if r' \<noteq> [] then rmatch after_required mid (g(2 \<mapsto> r')) ?K
                    else rmatch after_required mid g ?K)"
    unfolding r1_def by (simp only: rmatch_Seq_Opt_Group [OF ta] hd tw) simp
  finally show ?thesis unfolding r'_def [symmetric] by simp
qed

lemma rmatch_PlusL_first:
  assumes none: "\<And>s'. s' = [] \<or> hd s' \<noteq> CHR '':'' \<Longrightarrow> K s' g = None"
    and some: "\<And>t. K (CHR '':'' # t) g \<noteq> None"
  shows "p c \<Longrightarrow> \<forall>x \<in> set n. p x \<and> x \<noteq> CHR '':'' \<Longrightarrow>
         rmatch (PlusL p) (c # n @ CHR '':'' # t) g K = K (CHR '':'' # t) g"
proof (induction n arbitrary: c)
  case Nil
  then show ?case using some [of t] by (auto split: option.splits)
next
  case (Cons x xs)
  have "K (x # xs @ CHR '':'' # t) g = None" using Cons.prems(2) by (intro none) simp
  moreover have "rmatch (PlusL p) (x # xs @ CHR '':'' # t) g K = K (CHR '':'' # t) g"
    using Cons.prems(2) by (intro Cons.IH) simp_all
  ultimately show ?case using Cons.prems(1) by simp
qed

lemma rmatch_PlusL_shape:
  assumes none: "\<And>s'. s' = [] \<or> hd s' \<noteq> CHR '':'' \<Longrightarrow> K s' g = None"
    and some: "\<And>t. K (CHR '':'' # t) g \<noteq> None"
  shows "rmatch (PlusL p) s g K = Some m \<Longrightarrow>
         \<exists>c n t. s = c # n @ CHR '':'' # t \<and> p c \<and> (\<forall>x \<in> set n. p x \<and> x \<noteq> CHR '':'')"
proof (induction s)
  case Nil
  then show ?case by simp
next
  case (Cons c cs)
  have pc: "p c"
  proof (rule ccontr)
    assume "\<not> p c"
    then have "rmatch (PlusL p) (c # cs) g K = None" by simp
    with Cons.prems show False by simp
  qed
  show ?case
  proof (cases "K cs g")
    case None
    with pc have "rmatch (PlusL p) (c # cs) g K = rmatch (PlusL p) cs g K" by simp
    with Cons.prems have "rmatch (PlusL p) cs g K = Some m" by simp
    from Cons.IH [OF this] obtain c' n t where
      ih: "cs = c' # n @ CHR '':'' # t \<and> p c' \<and> (\<forall>x \<in> set n. p x \<and> x \<noteq> CHR '':'')"
      by (elim exE)
    from ih have cs: "cs = c' # n @ CHR '':'' # t" by (rule conjunct1)
    from ih have pc': "p c'" by simp
    from ih have pn: "\<forall>x \<in> set n. p x \<and> x \<noteq> CHR '':''" by simp
    have "c' \<noteq> CHR '':''"
    proof
      assume "c' = CHR '':''"
      with cs have "K cs g = K (CHR '':'' # n @ CHR '':'' # t) g" by simp
      with some [of "n @ CHR '':'' # t"] None show False by simp
    qed
    with pc' pn have all: "\<forall>x \<in> set (c' # n). p x \<and> x \<noteq> CHR '':''" by simp
    from cs have "c # cs = c # (c' # n) @ CHR '':'' # t" by simp
    with pc all show ?thesis by (intro exI [of _ c] exI [of _ "c' # n"] exI [of _ t] conjI)
  next
    case (Some a)
    have "cs \<noteq> [] \<and> hd cs = CHR '':''"
    proof (rule ccontr)
      assume "\<not> (cs \<noteq> [] \<and> hd cs = CHR '':'')"
      then have "cs = [] \<or> hd cs \<noteq> CHR '':''" by blast
      from none [OF this] Some show False by simp
    qed
    then obtain t where "cs = CHR '':'' # t" by (cases cs) auto
    then have "c # cs = c # [] @ CHR '':'' # t" by simp
    moreover have "\<forall>x \<in> set ([] :: string). p x \<and> x \<noteq> CHR '':''" by simp
    ultimately show ?thesis using pc
      by (intro exI [of _ c] exI [of _ "[]"] exI [of _ t] conjI)
  qed
qed

lemma tail_pattern_total: "\<forall>s g. rmatch tail_pattern s g (\<lambda>s' g'. Some g') \<noteq> None"
  unfolding tail_pattern_split opt_space_def
  by (intro allI rmatch_Seq_Opt_total after_required_total)

lemma target_pattern_name:
  assumes name: "name \<noteq> []" "CHR '':'' \<notin> set (tl name)" "CHR 0x0A \<notin> set name"
  shows "re_match target_pattern (name @ CHR '':'' # t) =
         rmatch tail_pattern t ((\<lambda>n. None)(1 \<mapsto> name)) (\<lambda>s' g'. Some g')"
proof -
  let ?K = "\<lambda>(s' :: string) (g' :: groups). Some g'"
  let ?s = "name @ CHR '':'' # t"
  let ?g0 = "(\<lambda>n. None) :: groups"
  define K1 where "K1 = (\<lambda>s' (g' :: groups).
      rmatch (Seq (Chr (\<lambda>c. c = CHR '':'')) tail_pattern) s'
        (g'(1 \<mapsto> take (length ?s - length s') ?s)) ?K)"
  from name(1) obtain c n where nm: "name = c # n" by (cases name) auto
  have e0: "re_match target_pattern ?s = rmatch (PlusL dot) ?s ?g0 K1"
    by (simp add: re_match_def target_pattern_def K1_def)
  have none: "K1 s' ?g0 = None" if "s' = [] \<or> hd s' \<noteq> CHR '':''" for s'
    using that by (cases s') (auto simp: K1_def)
  have some: "K1 (CHR '':'' # u) ?g0 \<noteq> None" for u
    using tail_pattern_total by (simp add: K1_def)
  have pc: "dot c" using name(3) nm by (auto simp: dot_def)
  have pn: "\<forall>x \<in> set n. dot x \<and> x \<noteq> CHR '':''"
    using name(2,3) nm by (auto simp: dot_def)
  have "rmatch (PlusL dot) (c # n @ CHR '':'' # t) ?g0 K1 = K1 (CHR '':'' # t) ?g0"
  proof (rule rmatch_PlusL_first [of K1 ?g0 dot c n t])
    show "\<And>s'. s' = [] \<or> hd s' \<noteq> CHR '':'' \<Longrightarrow> K1 s' ?g0 = None" by (rule none)
    show "\<And>u. K1 (CHR '':'' # u) ?g0 \<noteq> None" by (rule some)
    show "dot c" by (rule pc)
    show "\<forall>x \<in> set n. dot x \<and> x \<noteq> CHR '':''" by (rule pn)
  qed
  then have "rmatch (PlusL dot) ?s ?g0 K1 = K1 (CHR '':'' # t) ?g0" by (simp add: nm)
  also have "\<dots> = rmatch tail_pattern t (?g0(1 \<mapsto> name)) ?K"
    by (simp add: K1_def)
  finally show ?thesis using e0 by simp
qed

lemma target_pattern_groups:
  assumes name: "name \<noteq> []" "CHR '':'' \<notin> set (tl name)" "CHR 0x0A \<notin> set name"
    and req: "CHR ''|'' \<notin> set req" "CHR ''#'' \<notin> set req"
    and mid: "mid = [] \<or> hd mid = CHR ''|'' \<or> hd mid = CHR ''#''"
  shows "\<exists>m g. re_match target_pattern (name @ CHR '':'' # req @ mid) = Some m \<and>
          rmatch after_required mid g (\<lambda>s' g'. Some g') = Some m \<and>
          m 1 = Some name \<and> g 3 = None \<and>
          (case m 2 of None \<Rightarrow> []
           | Some d \<Rightarrow> if d = [] then [] else sort (split (strip d))) = sort (split req)"
proof -
  let ?K = "\<lambda>(s' :: string) (g' :: groups). Some g'"
  let ?g1 = "((\<lambda>n. None)(1 \<mapsto> name)) :: groups"
  define r' where "r' = (if req \<noteq> [] \<and> isspace (hd req) then tl req else req)"
  define g where "g = (if r' = [] then ?g1 else ?g1(2 \<mapsto> r'))"
  have e1: "re_match target_pattern (name @ CHR '':'' # req @ mid) =
        rmatch tail_pattern (req @ mid) ?g1 ?K"
    using name by (rule target_pattern_name)
  have e2: "rmatch tail_pattern (req @ mid) ?g1 ?K = rmatch after_required mid g ?K"
    unfolding g_def r'_def using req mid by (rule tail_pattern_required)
  from after_required_total [of mid g] obtain m where
    m: "rmatch after_required mid g ?K = Some m" by auto
  from after_required_groups [OF m] have m12: "m 1 = g 1" "m 2 = g 2" by simp_all
  have g1: "g 1 = Some name" by (simp add: g_def)
  have g2: "g 2 = (if r' = [] then None else Some r')" by (simp add: g_def)
  have g3: "g 3 = None" by (simp add: g_def)
  have "(case m 2 of None \<Rightarrow> []
           | Some d \<Rightarrow> if d = [] then [] else sort (split (strip d))) = sort (split req)"
    unfolding m12 g2 r'_def by (rule dep_list_of_group)
  moreover have "re_match target_pattern (name @ CHR '':'' # req @ mid) = Some m"
    using e1 e2 m by simp
  moreover have "m 1 = Some name" using m12 g1 by simp
  ultimately show ?thesis using m g3 by (intro exI [of _ m] exI [of _ g] conjI)
qed

lemma parse_target_both_lists:
  assumes name: "name \<noteq> []" "CHR '':'' \<notin> set (tl name)" "CHR 0x0A \<notin> set name"
    and req: "CHR ''|'' \<notin> set req" "CHR ''#'' \<notin> set req"
    and ord: "CHR ''#'' \<notin> set ord" and rest: "rest = [] \<or> hd rest = CHR ''#''"
    and pb: "parse_body (fst it) (snd it) = Inr (b, it')"
  shows "\<exists>dc. parse_target (k, name @ '':'' @ req @ ''|'' @ ord @ rest) it =
           Inr ((k, Dict \<lparr>target = strip name, deps = (sort (split req), sort (split ord)),
                          docs = dc, body = b\<rparr>), it')"
proof -
  let ?K = "\<lambda>(s' :: string) (g' :: groups). Some g'"
  let ?mid = "CHR ''|'' # ord @ rest"
  have "?mid = [] \<or> hd ?mid = CHR ''|'' \<or> hd ?mid = CHR ''#''" by simp
  from target_pattern_groups [OF name req this] obtain m g where
    rm: "re_match target_pattern (name @ CHR '':'' # req @ ?mid) = Some m"
    and ar: "rmatch after_required ?mid g ?K = Some m"
    and m1: "m 1 = Some name" and g3: "g 3 = None"
    and m2: "(case m 2 of None \<Rightarrow> []
           | Some d \<Rightarrow> if d = [] then [] else sort (split (strip d))) = sort (split req)"
    by (elim exE conjE)
  define o' where "o' = (if ord \<noteq> [] \<and> isspace (hd ord) then tl ord else ord)"
  from after_required_order_only [OF ord rest, of g] ar
  have "m 3 = (if o' = [] then g 3 else Some o')" unfolding o'_def by auto
  with g3 have "m 3 = (if o' = [] then None else Some o')" by simp
  then have m3: "(case m 3 of None \<Rightarrow> []
           | Some d \<Rightarrow> if d = [] then [] else sort (split (strip d))) = sort (split ord)"
    unfolding o'_def by (simp only: dep_list_of_group)
  have tx: "name @ '':'' @ req @ ''|'' @ ord @ rest = name @ CHR '':'' # req @ ?mid" by simp
  from m1 have m1': "m (Suc 0) = Some name" by simp
  show ?thesis
    unfolding tx parse_target_def by (simp add: rm pb m1' m2 m3)
qed

lemma parse_target_required_only:
  assumes name: "name \<noteq> []" "CHR '':'' \<notin> set (tl name)" "CHR 0x0A \<notin> set name"
    and req: "CHR ''|'' \<notin> set req" "CHR ''#'' \<notin> set req"
    and rest: "rest = [] \<or> hd rest = CHR ''#''"
    and pb: "parse_body (fst it) (snd it) = Inr (b, it')"
  shows "\<exists>dc. parse_target (k, name @ '':'' @ req @ rest) it =
           Inr ((k, Dict \<lparr>target = strip name, deps = (sort (split req), []),
                          docs = dc, body = b\<rparr>), it')"
proof -
  let ?K = "\<lambda>(s' :: string) (g' :: groups). Some g'"
  from rest have "rest = [] \<or> hd rest = CHR ''|'' \<or> hd rest = CHR ''#''" by blast
  from target_pattern_groups [OF name req this] obtain m g where
    rm: "re_match target_pattern (name @ CHR '':'' # req @ rest) = Some m"
    and ar: "rmatch after_required rest g ?K = Some m"
    and m1: "m 1 = Some name" and g3: "g 3 = None"
    and m2: "(case m 2 of None \<Rightarrow> []
           | Some d \<Rightarrow> if d = [] then [] else sort (split (strip d))) = sort (split req)"
    by (elim exE conjE)
  from after_required_no_order_only [OF rest g3 ar] have m3: "m 3 = None" .
  have tx: "name @ '':'' @ req @ rest = name @ CHR '':'' # req @ rest" by simp
  from m1 have m1': "m (Suc 0) = Some name" by simp
  show ?thesis
    unfolding tx parse_target_def by (simp add: rm pb m1' m2 m3)
qed

lemma parse_target_shape:
  assumes "parse_target token it = Inr (entry, it')"
  shows "\<exists>name t. snd token = name @ CHR '':'' # t \<and> name \<noteq> [] \<and>
           CHR '':'' \<notin> set (tl name) \<and> CHR 0x0A \<notin> set name"
proof -
  let ?K = "\<lambda>(s' :: string) (g' :: groups). Some g'"
  let ?s = "snd token"
  let ?g0 = "(\<lambda>n. None) :: groups"
  define K1 where "K1 = (\<lambda>s' (g' :: groups).
      rmatch (Seq (Chr (\<lambda>c. c = CHR '':'')) tail_pattern) s'
        (g'(1 \<mapsto> take (length ?s - length s') ?s)) ?K)"
  from assms obtain m where "re_match target_pattern ?s = Some m"
    by (auto simp: parse_target_def split: option.splits)
  then have m: "rmatch (PlusL dot) ?s ?g0 K1 = Some m"
    by (simp add: re_match_def target_pattern_def K1_def)
  have none: "K1 s' ?g0 = None" if "s' = [] \<or> hd s' \<noteq> CHR '':''" for s'
    using that by (cases s') (auto simp: K1_def)
  have some: "K1 (CHR '':'' # u) ?g0 \<noteq> None" for u
    using tail_pattern_total by (simp add: K1_def)
  have "\<exists>c n t. ?s = c # n @ CHR '':'' # t \<and> dot c \<and>
      (\<forall>x \<in> set n. dot x \<and> x \<noteq> CHR '':'')"
  proof (rule rmatch_PlusL_shape [of K1 ?g0 dot ?s m])
    show "\<And>s'. s' = [] \<or> hd s' \<noteq> CHR '':'' \<Longrightarrow> K1 s' ?g0 = None" by (rule none)
    show "\<And>u. K1 (CHR '':'' # u) ?g0 \<noteq> None" by (rule some)
    show "rmatch (PlusL dot) ?s ?g0 K1 = Some m" by (rule m)
  qed
  then obtain c n t where
    sh: "?s = c # n @ CHR '':'' # t \<and> dot c \<and> (\<forall>x \<in> set n. dot x \<and> x \<noteq> CHR '':'')"
    by (elim exE)
  then have "?s = (c # n) @ CHR '':'' # t" by simp
  moreover have "c # n \<noteq> []" by simp
  moreover have "CHR '':'' \<notin> set (tl (c # n))" using sh by auto
  moreover have "CHR 0x0A \<notin> set (c # n)" using sh by (auto simp: dot_def)
  ultimately show ?thesis by (intro exI [of _ "c # n"] exI [of _ t] conjI)
qed

lemma text_after_colon:
  "\<exists>req ord rest. CHR ''|'' \<notin> set req \<and> CHR ''#'' \<notin> set req \<and> CHR ''#'' \<notin> set ord \<and>
      (rest = [] \<or> hd rest = CHR ''#'') \<and>
      (t = req @ ''|'' @ ord @ rest \<or> t = req @ rest)"
proof -
  let ?p2 = "\<lambda>c. c \<noteq> CHR ''|'' \<and> c \<noteq> CHR ''#''"
  let ?p3 = "\<lambda>c. c \<noteq> CHR ''#''"
  define req where "req = takeWhile ?p2 t"
  define mid where "mid = dropWhile ?p2 t"
  have t: "t = req @ mid" by (simp add: req_def mid_def)
  have rq: "CHR ''|'' \<notin> set req \<and> CHR ''#'' \<notin> set req"
    unfolding req_def by (auto dest: set_takeWhileD)
  have md: "mid = [] \<or> hd mid = CHR ''|'' \<or> hd mid = CHR ''#''"
    unfolding mid_def using hd_dropWhile [of ?p2 t] by blast
  show ?thesis
  proof (cases "mid \<noteq> [] \<and> hd mid = CHR ''|''")
    case True
    then obtain u where u: "mid = CHR ''|'' # u" by (cases mid) auto
    define ord where "ord = takeWhile ?p3 u"
    define rest where "rest = dropWhile ?p3 u"
    have "u = ord @ rest" by (simp add: ord_def rest_def)
    with t u have 1: "t = req @ ''|'' @ ord @ rest" by simp
    have 2: "CHR ''#'' \<notin> set ord" unfolding ord_def by (auto dest: set_takeWhileD)
    have 3: "rest = [] \<or> hd rest = CHR ''#''"
      unfolding rest_def using hd_dropWhile [of ?p3 u] by blast
    have "CHR ''|'' \<notin> set req \<and> CHR ''#'' \<notin> set req \<and> CHR ''#'' \<notin> set ord \<and>
      (rest = [] \<or> hd rest = CHR ''#'') \<and>
      (t = req @ ''|'' @ ord @ rest \<or> t = req @ rest)"
      using rq 2 3 by (simp add: 1)
    then show ?thesis
      by (rule exI [of _ rest, THEN exI [of _ ord, THEN exI [of _ req]]])
  next
    case False
    with md have 3: "mid = [] \<or> hd mid = CHR ''#''" by blast
    have 2: "CHR ''#'' \<notin> set ([] :: string)" by simp
    have "CHR ''|'' \<notin> set req \<and> CHR ''#'' \<notin> set req \<and> CHR ''#'' \<notin> set ([] :: string) \<and>
      (mid = [] \<or> hd mid = CHR ''#'') \<and>
      (t = req @ ''|'' @ [] @ mid \<or> t = req @ mid)"
      using rq 3 by (simp add: t)
    then show ?thesis
      by (rule exI [of _ mid, THEN exI [of _ "[]", THEN exI [of _ req]]])
  qed
qed

lemma parse_target_lists:
  assumes pt: "parse_target token it = Inr ((k, Dict d), it')"
  shows "\<exists>name req ord rest.
         name \<noteq> [] \<and> CHR '':'' \<notin> set (tl name) \<and> CHR 0x0A \<notin> set name \<and>
         CHR ''|'' \<notin> set req \<and> CHR ''#'' \<notin> set req \<and> CHR ''#'' \<notin> set ord \<and>
         (rest = [] \<or> hd rest = CHR ''#'') \<and>
         (snd token = name @ '':'' @ req @ ''|'' @ ord @ rest \<and>
            deps d = (sort (split req), sort (split ord)) \<or>
          snd token = name @ '':'' @ req @ rest \<and> deps d = (sort (split req), []))"
proof -
  from pt obtain b where pb: "parse_body (fst it) (snd it) = Inr (b, it')"
    by (auto simp: parse_target_def split: option.splits sum.splits)
  from parse_target_shape [OF pt] obtain name t where
    s: "snd token = name @ CHR '':'' # t" and
    name: "name \<noteq> []" "CHR '':'' \<notin> set (tl name)" "CHR 0x0A \<notin> set name"
    by (elim exE conjE)
  from text_after_colon [of t] obtain req ord rest where
    req: "CHR ''|'' \<notin> set req" "CHR ''#'' \<notin> set req" and ord: "CHR ''#'' \<notin> set ord"
    and rest: "rest = [] \<or> hd rest = CHR ''#''"
    and t: "t = req @ ''|'' @ ord @ rest \<or> t = req @ rest"
    by (elim exE conjE)
  have tok: "token = (fst token, snd token)" by simp
  from t have "snd token = name @ '':'' @ req @ ''|'' @ ord @ rest \<and>
            deps d = (sort (split req), sort (split ord)) \<or>
          snd token = name @ '':'' @ req @ rest \<and> deps d = (sort (split req), [])"
  proof
    assume a: "t = req @ ''|'' @ ord @ rest"
    with s have s': "snd token = name @ '':'' @ req @ ''|'' @ ord @ rest" by simp
    from parse_target_both_lists [OF name req ord rest pb, of "fst token"] obtain dc where
      "parse_target (fst token, name @ '':'' @ req @ ''|'' @ ord @ rest) it =
           Inr ((fst token, Dict \<lparr>target = strip name,
                  deps = (sort (split req), sort (split ord)), docs = dc, body = b\<rparr>), it')"
      by (elim exE)
    with s' tok have "parse_target token it =
           Inr ((fst token, Dict \<lparr>target = strip name,
                  deps = (sort (split req), sort (split ord)), docs = dc, body = b\<rparr>), it')"
      by metis
    with pt have "d = \<lparr>target = strip name,
                  deps = (sort (split req), sort (split ord)), docs = dc, body = b\<rparr>"
      by simp
    then have "deps d = (sort (split req), sort (split ord))" by simp
    with s' show ?thesis by (intro disjI1 conjI)
  next
    assume a: "t = req @ rest"
    with s have s': "snd token = name @ '':'' @ req @ rest" by simp
    from parse_target_required_only [OF name req rest pb, of "fst token"] obtain dc where
      "parse_target (fst token, name @ '':'' @ req @ rest) it =
           Inr ((fst token, Dict \<lparr>target = strip name,
                  deps = (sort (split req), []), docs = dc, body = b\<rparr>), it')"
      by (elim exE)
    with s' tok have "parse_target token it =
           Inr ((fst token, Dict \<lparr>target = strip name,
                  deps = (sort (split req), []), docs = dc, body = b\<rparr>), it')"
      by metis
    with pt have "d = \<lparr>target = strip name,
                  deps = (sort (split req), []), docs = dc, body = b\<rparr>"
      by simp
    then have "deps d = (sort (split req), [])" by simp
    with s' show ?thesis by (intro disjI2 conjI)
  qed
  with name req ord rest have "name \<noteq> [] \<and> CHR '':'' \<notin> set (tl name) \<and> CHR 0x0A \<notin> set name \<and>
         CHR ''|'' \<notin> set req \<and> CHR ''#'' \<notin> set req \<and> CHR ''#'' \<notin> set ord \<and>
         (rest = [] \<or> hd rest = CHR ''#'') \<and>
         (snd token = name @ '':'' @ req @ ''|'' @ ord @ rest \<and>
            deps d = (sort (split req), sort (split ord)) \<or>
          snd token = name @ '':'' @ req @ rest \<and> deps d = (sort (split req), []))"
    by (intro conjI)
  then show ?thesis
    by (rule exI [of _ rest, THEN exI [of _ ord, THEN exI [of _ req, THEN exI [of _ name]]]])
qed

text \<open>
  Claim C5, as the code has it: every target text that \<open>parse_target\<close> accepts reads
  \<open>name:req|ord rest\<close> or \<open>name:req rest\<close>, where \<open>name\<close> is not empty and has no
  colon after its first character, \<open>req\<close> has neither \<open>|\<close> nor \<open>#\<close>, \<open>ord\<close> has no
  \<open>#\<close>, and \<open>rest\<close> is empty or starts with \<open>#\<close>. The list of required dependencies
  is the sorted list of the names written in \<open>req\<close>, and the list of order-only
  dependencies is the sorted list of the names written in \<open>ord\<close>, empty when the text
  has no \<open>|\<close>. Nothing in \<open>parse_target\<close> compares the two lists: they are disjoint
  exactly when no name is written on both sides of the \<open>|\<close>. Conversely, every text of
  one of the two forms is accepted with these lists, whenever the body after it parses.
\<close>

theorem dependency_lists_as_written:
  "(parse_target token it = Inr ((k, Dict d), it') \<longrightarrow>
      (\<exists>name req ord rest.
         name \<noteq> [] \<and> CHR '':'' \<notin> set (tl name) \<and> CHR 0x0A \<notin> set name \<and>
         CHR ''|'' \<notin> set req \<and> CHR ''#'' \<notin> set req \<and> CHR ''#'' \<notin> set ord \<and>
         (rest = [] \<or> hd rest = CHR ''#'') \<and>
         (snd token = name @ '':'' @ req @ ''|'' @ ord @ rest \<and>
            deps d = (sort (split req), sort (split ord)) \<and>
            (set (fst (deps d)) \<inter> set (snd (deps d)) = {}) =
              (set (split req) \<inter> set (split ord) = {}) \<or>
          snd token = name @ '':'' @ req @ rest \<and>
            deps d = (sort (split req), []) \<and>
            set (fst (deps d)) \<inter> set (snd (deps d)) = {}))) \<and>
   (name \<noteq> [] \<and> CHR '':'' \<notin> set (tl name) \<and> CHR 0x0A \<notin> set name \<and>
    CHR ''|'' \<notin> set req \<and> CHR ''#'' \<notin> set req \<and> CHR ''#'' \<notin> set ord \<and>
    (rest = [] \<or> hd rest = CHR ''#'') \<and> parse_body (fst it) (snd it) = Inr (b, it') \<longrightarrow>
      (\<exists>dc. parse_target (k, name @ '':'' @ req @ ''|'' @ ord @ rest) it =
           Inr ((k, Dict \<lparr>target = strip name, deps = (sort (split req), sort (split ord)),
                          docs = dc, body = b\<rparr>), it')) \<and>
      (\<exists>dc. parse_target (k, name @ '':'' @ req @ rest) it =
           Inr ((k, Dict \<lparr>target = strip name, deps = (sort (split req), []),
                          docs = dc, body = b\<rparr>), it'))) \<and>
   (CHR ''|'' \<notin> set (snd token) \<and> parse_target token it = Inr ((k, Dict d), it') \<longrightarrow>
      snd (deps d) = [])"
proof (intro conjI impI)
  assume "parse_target token it = Inr ((k, Dict d), it')"
  from parse_target_lists [OF this] obtain name req ord rest where
    all: "name \<noteq> [] \<and> CHR '':'' \<notin> set (tl name) \<and> CHR 0x0A \<notin> set name \<and>
         CHR ''|'' \<notin> set req \<and> CHR ''#'' \<notin> set req \<and> CHR ''#'' \<notin> set ord \<and>
         (rest = [] \<or> hd rest = CHR ''#'') \<and>
         (snd token = name @ '':'' @ req @ ''|'' @ ord @ rest \<and>
            deps d = (sort (split req), sort (split ord)) \<or>
          snd token = name @ '':'' @ req @ rest \<and> deps d = (sort (split req), []))"
    by (elim exE)
  then have sh: "name \<noteq> [] \<and> CHR '':'' \<notin> set (tl name) \<and> CHR 0x0A \<notin> set name \<and>
         CHR ''|'' \<notin> set req \<and> CHR ''#'' \<notin> set req \<and> CHR ''#'' \<notin> set ord \<and>
         (rest = [] \<or> hd rest = CHR ''#'')"
    by (elim conjE) (intro conjI)
  from all have c: "snd token = name @ '':'' @ req @ ''|'' @ ord @ rest \<and>
            deps d = (sort (split req), sort (split ord)) \<or>
          snd token = name @ '':'' @ req @ rest \<and> deps d = (sort (split req), [])"
    by (elim conjE)
  from c have "snd token = name @ '':'' @ req @ ''|'' @ ord @ rest \<and>
            deps d = (sort (split req), sort (split ord)) \<and>
            (set (fst (deps d)) \<inter> set (snd (deps d)) = {}) =
              (set (split req) \<inter> set (split ord) = {}) \<or>
          snd token = name @ '':'' @ req @ rest \<and>
            deps d = (sort (split req), []) \<and>
            set (fst (deps d)) \<inter> set (snd (deps d)) = {}"
  proof
    assume a: "snd token = name @ '':'' @ req @ ''|'' @ ord @ rest \<and>
            deps d = (sort (split req), sort (split ord))"
    then have "(set (fst (deps d)) \<inter> set (snd (deps d)) = {}) =
              (set (split req) \<inter> set (split ord) = {})"
      by simp
    with a show ?thesis by (intro disjI1 conjI) simp_all
  next
    assume a: "snd token = name @ '':'' @ req @ rest \<and> deps d = (sort (split req), [])"
    then have "set (fst (deps d)) \<inter> set (snd (deps d)) = {}" by simp
    with a show ?thesis by (intro disjI2 conjI) simp_all
  qed
  with sh have "name \<noteq> [] \<and> CHR '':'' \<notin> set (tl name) \<and> CHR 0x0A \<notin> set name \<and>
         CHR ''|'' \<notin> set req \<and> CHR ''#'' \<notin> set req \<and> CHR ''#'' \<notin> set ord \<and>
         (rest = [] \<or> hd rest = CHR ''#'') \<and>
         (snd token = name @ '':'' @ req @ ''|'' @ ord @ rest \<and>
            deps d = (sort (split req), sort (split ord)) \<and>
            (set (fst (deps d)) \<inter> set (snd (deps d)) = {}) =
              (set (split req) \<inter> set (split ord) = {}) \<or>
          snd token = name @ '':'' @ req @ rest \<and>
            deps d = (sort (split req), []) \<and>
            set (fst (deps d)) \<inter> set (snd (deps d)) = {})"
    by simp
  then show "\<exists>name req ord rest.
         name \<noteq> [] \<and> CHR '':'' \<notin> set (tl name) \<and> CHR 0x0A \<notin> set name \<and>
         CHR ''|'' \<notin> set req \<and> CHR ''#'' \<notin> set req \<and> CHR ''#'' \<notin> set ord \<and>
         (rest = [] \<or> hd rest = CHR ''#'') \<and>
         (snd token = name @ '':'' @ req @ ''|'' @ ord @ rest \<and>
            deps d = (sort (split req), sort (split ord)) \<and>
            (set (fst (deps d)) \<inter> set (snd (deps d)) = {}) =
              (set (split req) \<inter> set (split ord) = {}) \<or>
          snd token = name @ '':'' @ req @ rest \<and>
            deps d = (sort (split req), []) \<and>
            set (fst (deps d)) \<inter> set (snd (deps d)) = {})"
    by (rule exI [of _ rest, THEN exI [of _ ord, THEN exI [of _ req, THEN exI [of _ name]]]])
next
  assume h: "name \<noteq> [] \<and> CHR '':'' \<notin> set (tl name) \<and> CHR 0x0A \<notin> set name \<and>
    CHR ''|'' \<notin> set req \<and> CHR ''#'' \<notin> set req \<and> CHR ''#'' \<notin> set ord \<and>
    (rest = [] \<or> hd rest = CHR ''#'') \<and> parse_body (fst it) (snd it) = Inr (b, it')"
  then show "\<exists>dc. parse_target (k, name @ '':'' @ req @ ''|'' @ ord @ rest) it =
           Inr ((k, Dict \<lparr>target = strip name, deps = (sort (split req), sort (split ord)),
                          docs = dc, body = b\<rparr>), it')"
    by (intro parse_target_both_lists) simp_all
  from h show "\<exists>dc. parse_target (k, name @ '':'' @ req @ rest) it =
           Inr ((k, Dict \<lparr>target = strip name, deps = (sort (split req), []),
                          docs = dc, body = b\<rparr>), it')"
    by (intro parse_target_required_only) simp_all
next
  assume h: "CHR ''|'' \<notin> set (snd token) \<and> parse_target token it = Inr ((k, Dict d), it')"
  then obtain g where g: "re_match target_pattern (snd token) = Some g"
    and d: "snd (deps d) = (case g 3 of None \<Rightarrow> []
              | Some x \<Rightarrow> if x = [] then [] else sort (split (strip x)))"
    by (auto simp: parse_target_def split: option.splits sum.splits)
  from h have np: "CHR ''|'' \<notin> set (snd token)" by simp
  from no_pipe_no_order_only [OF np g] d show "snd (deps d) = []" by simp
qed

theorem dependency_lists_as_written_witness:
  "parse_target (Tokens_target, ''a: b | c'') ([], None) =
     Inr ((Tokens_target,
           Dict \<lparr>target = ''a'', deps = ([''b''], [''c'']), docs = [], body = []\<rparr>), ([], None)) \<and>
   (\<exists>name req ord rest.
      name \<noteq> [] \<and> CHR '':'' \<notin> set (tl name) \<and> CHR 0x0A \<notin> set name \<and>
      CHR ''|'' \<notin> set req \<and> CHR ''#'' \<notin> set req \<and> CHR ''#'' \<notin> set ord \<and>
      (rest = [] \<or> hd rest = CHR ''#'') \<and>
      (''a: b | c'' = name @ '':'' @ req @ ''|'' @ ord @ rest \<and>
         ([''b''], [''c'']) = (sort (split req), sort (split ord)) \<and>
         (set [''b''] \<inter> set [''c''] = {}) = (set (split req) \<inter> set (split ord) = {}) \<or>
       ''a: b | c'' = name @ '':'' @ req @ rest \<and>
         ([''b''], [''c'']) = (sort (split req), []) \<and>
         set [''b''] \<inter> set [''c''] = {})) \<and>
   (\<exists>dc. parse_target (Tokens_target, ''a'' @ '':'' @ '' b '' @ ''|'' @ '' c'' @ []) ([], None) =
      Inr ((Tokens_target,
            Dict \<lparr>target = strip ''a'', deps = (sort (split '' b ''), sort (split '' c'')),
                  docs = dc, body = []\<rparr>), ([], None))) \<and>
   (\<exists>dc. parse_target (Tokens_target, ''a'' @ '':'' @ '' b '' @ []) ([], None) =
      Inr ((Tokens_target,
            Dict \<lparr>target = strip ''a'', deps = (sort (split '' b ''), []),
                  docs = dc, body = []\<rparr>), ([], None))) \<and>
   sort (split '' b '') = [''b''] \<and> sort (split '' c'') = [''c''] \<and>
   CHR ''|'' \<notin> set ''x: y z'' \<and>
   parse_target (Tokens_target, ''x: y z'') ([], None) =
     Inr ((Tokens_target,
           Dict \<lparr>target = ''x'', deps = ([''y'', ''z''], []), docs = [], body = []\<rparr>), ([], None)) \<and>
   snd ([''y'', ''z''], [] :: string list) = []"
proof -
  let ?d = "\<lparr>target = ''a'', deps = ([''b''], [''c'']), docs = [], body = [] :: token list\<rparr>"
  let ?x = "\<lparr>target = ''x'', deps = ([''y'', ''z''], []), docs = [], body = [] :: token list\<rparr>"
  have p: "parse_target (Tokens_target, ''a: b | c'') ([], None) =
     Inr ((Tokens_target, Dict ?d), ([], None))"
    by code_simp
  have sh: "''a'' \<noteq> [] \<and> CHR '':'' \<notin> set (tl ''a'') \<and> CHR 0x0A \<notin> set ''a'' \<and>
    CHR ''|'' \<notin> set '' b '' \<and> CHR ''#'' \<notin> set '' b '' \<and> CHR ''#'' \<notin> set '' c'' \<and>
    ([] = [] \<or> hd [] = CHR ''#'') \<and>
    parse_body (fst ([], None)) (snd ([], None)) = Inr ([], ([], None))"
    by simp
  have q: "CHR ''|'' \<notin> set (snd (Tokens_target, ''x: y z'')) \<and>
    parse_target (Tokens_target, ''x: y z'') ([], None) = Inr ((Tokens_target, Dict ?x), ([], None))"
    by code_simp
  note i1 = dependency_lists_as_written [of "(Tokens_target, ''a: b | c'')" "([], None)"
      Tokens_target ?d "([], None)" "''a''" "'' b ''" "'' c''" "[]" "[]"]
  note i2 = dependency_lists_as_written [of "(Tokens_target, ''x: y z'')" "([], None)"
      Tokens_target ?x "([], None)" "''a''" "'' b ''" "'' c''" "[]" "[]"]
  from mp [OF i1 [THEN conjunct1] p]
  have c1: "\<exists>name req ord rest.
      name \<noteq> [] \<and> CHR '':'' \<notin> set (tl name) \<and> CHR 0x0A \<notin> set name \<and>
      CHR ''|'' \<notin> set req \<and> CHR ''#'' \<notin> set req \<and> CHR ''#'' \<notin> set ord \<and>
      (rest = [] \<or> hd rest = CHR ''#'') \<and>
      (''a: b | c'' = name @ '':'' @ req @ ''|'' @ ord @ rest \<and>
         ([''b''], [''c'']) = (sort (split req), sort (split ord)) \<and>
         (set [''b''] \<inter> set [''c''] = {}) = (set (split req) \<inter> set (split ord) = {}) \<or>
       ''a: b | c'' = name @ '':'' @ req @ rest \<and>
         ([''b''], [''c'']) = (sort (split req), []) \<and>
         set [''b''] \<inter> set [''c''] = {})"
    by (simp only: snd_conv fst_conv target_dict.simps)
  note c2 = mp [OF i1 [THEN conjunct2, THEN conjunct1] sh]
  have c3: "sort (split '' b '') = [''b''] \<and> sort (split '' c'') = [''c'']" by code_simp
  from mp [OF i2 [THEN conjunct2, THEN conjunct2] q]
  have c4: "snd ([''y'', ''z''], [] :: string list) = []" by simp
  from q have q1: "CHR ''|'' \<notin> set ''x: y z''"
    and q2: "parse_target (Tokens_target, ''x: y z'') ([], None) =
      Inr ((Tokens_target, Dict ?x), ([], None))"
    by simp_all
  from p c1 c2 [THEN conjunct1] c2 [THEN conjunct2] c3 [THEN conjunct1] c3 [THEN conjunct2] q1 q2 c4
  show ?thesis by (intro conjI)
qed

text \<open>
  Claim C5 as stated fails on \<open>a: b | b\<close>: \<open>b\<close> is in both lists.
\<close>

theorem both_sides_counterexample:
  "parse [''a: b | b''] =
     Inr [(Tokens_target, Dict \<lparr>target = ''a'', deps = ([''b''], [''b'']), docs = [], body = []\<rparr>)] \<and>
   set (fst (deps \<lparr>target = ''a'', deps = ([''b''], [''b'']), docs = [], body = []\<rparr>)) \<inter>
   set (snd (deps \<lparr>target = ''a'', deps = ([''b''], [''b'']), docs = [], body = []\<rparr>)) \<noteq> {}"
  by code_simp

section \<open>Malformed target lines\<close>

lemma parse_body_Inl:
  "parse_body ts err = Inl e \<Longrightarrow> \<forall>t \<in> set ts. fst t = Tokens_command"
  by (induction ts err rule: parse_body.induct) (auto split: if_splits sum.splits)

lemma parse_body_Inr:
  "parse_body ts err = Inr (b, it') \<Longrightarrow> t \<in> set ts \<Longrightarrow> fst t \<noteq> Tokens_command \<Longrightarrow>
   t \<in> set (fst it')"
  by (induction ts err arbitrary: b it' rule: parse_body.induct)
     (auto split: if_splits sum.splits)

lemma parse_target_Inl:
  "parse_target token (ts, err) = Inl e \<Longrightarrow> t \<in> set ts \<Longrightarrow> fst t \<noteq> Tokens_command \<Longrightarrow>
   e = AttributeError"
  by (auto simp: parse_target_def split: option.splits sum.splits dest: parse_body_Inl)

lemma parse_target_Inr:
  "parse_target token (ts, err) = Inr (entry, it') \<Longrightarrow> t \<in> set ts \<Longrightarrow>
   fst t \<noteq> Tokens_command \<Longrightarrow> t \<in> set (fst it')"
  by (auto simp: parse_target_def split: option.splits sum.splits dest: parse_body_Inr)

lemma parse_for_malformed:
  "(Tokens_target, text) \<in> set toks \<Longrightarrow> re_match target_pattern text = None \<Longrightarrow>
   parse_for toks err = Inl AttributeError"
proof (induction toks err rule: parse_for.induct)
  case 1
  then show ?case by simp
next
  case (2 e)
  then show ?case by simp
next
  case (3 token ts err)
  show ?case
  proof (cases "token = (Tokens_target, text)")
    case True
    with "3.prems"(2) show ?thesis by (simp add: parse_target_def)
  next
    case False
    with "3.prems"(1) have mem: "(Tokens_target, text) \<in> set ts" by simp
    show ?thesis
    proof (cases "fst token = Tokens_target")
      case True
      show ?thesis
      proof (cases "parse_target token (ts, err)")
        case (Inl e)
        from parse_target_Inl [OF Inl mem] have "e = AttributeError" by simp
        with Inl True show ?thesis by simp
      next
        case (Inr r)
        obtain entry it' where r: "r = (entry, it')" by (cases r)
        from parse_target_Inr [OF Inr [unfolded r] mem]
        have "(Tokens_target, text) \<in> set (fst it')" by simp
        from "3.IH"(1) [OF True Inr [unfolded r] refl this "3.prems"(2)]
        show ?thesis using True Inr r by simp
      qed
    next
      case F: False
      from "3.IH"(2) [OF F mem "3.prems"(2)] F show ?thesis by simp
    qed
  qed
qed

lemma rmatch_PlusL_None:
  "(\<And>pre post. s = pre @ post \<Longrightarrow> pre \<noteq> [] \<Longrightarrow> \<forall>c \<in> set pre. p c \<Longrightarrow> K post g = None) \<Longrightarrow>
   rmatch (PlusL p) s g K = None"
proof (induction s)
  case Nil
  then show ?case by simp
next
  case (Cons c cs)
  show ?case
  proof (cases "p c")
    case True
    from Cons.prems [of "[c]" cs] True have 1: "K cs g = None" by simp
    have "rmatch (PlusL p) cs g K = None"
    proof (rule Cons.IH)
      fix pre post
      assume "cs = pre @ post" "pre \<noteq> []" "\<forall>c \<in> set pre. p c"
      with Cons.prems [of "c # pre" post] True show "K post g = None" by simp
    qed
    with 1 True show ?thesis by simp
  next
    case False
    then show ?thesis by simp
  qed
qed

lemma no_name_no_match:
  assumes "\<forall>name rest. text = name @ CHR '':'' # rest \<longrightarrow> name = [] \<or> CHR 0x0A \<in> set name"
  shows "re_match target_pattern text = None"
proof -
  let ?K = "\<lambda>s' g'. rmatch (Seq (Chr (\<lambda>c. c = CHR '':'')) tail_pattern) s'
      (g'(1 \<mapsto> take (length text - length s') text)) (\<lambda>s' g. Some g)"
  have "rmatch (PlusL dot) text (\<lambda>n. None) ?K = None"
  proof (rule rmatch_PlusL_None)
    fix pre post
    assume a: "text = pre @ post" "pre \<noteq> []" "\<forall>c \<in> set pre. dot c"
    show "?K post (\<lambda>n. None) = None"
    proof (cases post)
      case Nil
      then show ?thesis by simp
    next
      case (Cons c cs)
      with a assms have "c \<noteq> CHR '':''" by (auto simp: dot_def)
      with Cons show ?thesis by simp
    qed
  qed
  then show ?thesis by (simp add: re_match_def target_pattern_def)
qed

text \<open>
  Claim C8, as the code has it: when the tokens of the input contain a target token whose
  text the pattern does not match, \<open>parse\<close> raises \<open>AttributeError\<close> (the call
  \<open>.groups()\<close> on \<open>None\<close>) and returns no AST; the line is not skipped. The pattern
  does not match a text in which no \<open>:\<close> has a non-empty name without line feed
  before it. The exception carries neither the position nor the text of the line.
\<close>

theorem malformed_target_raises:
  "(tokenizer fd = (toks, err) \<and> (Tokens_target, text) \<in> set toks \<and>
    re_match target_pattern text = None \<longrightarrow> parse fd = Inl AttributeError) \<and>
   ((\<forall>name rest. text' = name @ CHR '':'' # rest \<longrightarrow> name = [] \<or> CHR 0x0A \<in> set name) \<longrightarrow>
    re_match target_pattern text' = None)"
  by (auto simp: parse_def Let_def intro: parse_for_malformed no_name_no_match)

theorem malformed_target_raises_witness:
  "tokenizer [''x = 1'', '': y''] = ([(Tokens_expression, ''x = 1''), (Tokens_target, '': y'')], None) \<and>
   re_match target_pattern '': y'' = None \<and>
   parse [''x = 1'', '': y''] = Inl AttributeError"
proof -
  have t: "tokenizer [''x = 1'', '': y''] =
      ([(Tokens_expression, ''x = 1''), (Tokens_target, '': y'')], None)"
    by code_simp
  have n: "\<forall>name rest. '': y'' = name @ CHR '':'' # rest \<longrightarrow> name = [] \<or> CHR 0x0A \<in> set name"
    by (auto simp: append_eq_Cons_conv Cons_eq_append_conv)
  have m: "(Tokens_target, '': y'') \<in> set [(Tokens_expression, ''x = 1''), (Tokens_target, '': y'')]"
    by simp
  note inst = malformed_target_raises [of "[''x = 1'', '': y'']"
      "[(Tokens_expression, ''x = 1''), (Tokens_target, '': y'')]" None "'': y''" "'': y''"]
  from inst n have r: "re_match target_pattern '': y'' = None" by blast
  from inst t m r have "parse [''x = 1'', '': y''] = Inl AttributeError" by blast
  with t r show ?thesis by blast
qed

text \<open>
  Claim C8 as stated fails: the exception does not identify the line. The malformed line
  \<open>:\<close> at position 0 and the malformed line \<open>: y\<close> at position 1 raise the same
  \<open>AttributeError\<close>.
\<close>

theorem malformed_target_anonymous_counterexample:
  "tokenizer ['':''] = ([(Tokens_target, '':'')], None) \<and>
   parse ['':''] = Inl AttributeError \<and>
   tokenizer [''x = 1'', '': y''] = ([(Tokens_expression, ''x = 1''), (Tokens_target, '': y'')], None) \<and>
   parse [''x = 1'', '': y''] = Inl AttributeError"
  by code_simp

section \<open>Properties of the dictionaries\<close>

lemma map_of_dict_set: "map_of (dict_set k v d) = (map_of d)(k \<mapsto> v)"
  by (induction d) (auto simp: fun_eq_iff)

lemma keys_dict_set: "fst ` set (dict_set k v d) = insert k (fst ` set d)"
  by (induction d) auto

lemma distinct_dict_set: "distinct (map fst d) \<Longrightarrow> distinct (map fst (dict_set k v d))"
  by (induction d) (auto simp: keys_dict_set [simplified image_set [symmetric]] image_iff)

lemma set_set_add: "set (set_add x xs) = insert x (set xs)"
  by (auto simp: set_add_def)

lemma set_set_update: "set (set_update xs ys) = set xs \<union> set ys"
  unfolding set_update_def by (induction ys arbitrary: xs) (auto simp: set_set_add)

lemma map_of_dd_touch:
  "map_of (dd_touch k d) = (case map_of d k of None \<Rightarrow> (map_of d)(k \<mapsto> []) | Some v \<Rightarrow> map_of d)"
  by (auto simp: dd_touch_def fun_eq_iff map_add_def split: option.splits)

lemma dd_get_dd_touch: "dd_get (dd_touch k d) x = dd_get d x"
  by (auto simp: dd_get_def map_of_dd_touch split: option.splits)

lemma keys_dd_touch: "fst ` set (dd_touch k d) = insert k (fst ` set d)"
  by (auto simp: dd_touch_def map_of_eq_None_iff [symmetric] dest: weak_map_of_SomeI
      split: option.splits) (metis domI dom_map_of_conv_image_fst fst_conv image_eqI)+

lemma distinct_dd_touch: "distinct (map fst d) \<Longrightarrow> distinct (map fst (dd_touch k d))"
  by (auto simp: dd_touch_def map_of_eq_None_iff split: option.splits)

lemma dd_get_dd_add:
  "dd_get (dd_add k t d) x = (if x = k then set_add t (dd_get d k) else dd_get d x)"
  by (auto simp: dd_add_def dd_get_def map_of_dict_set map_of_dd_touch split: option.splits)

lemma keys_dd_add: "fst ` set (dd_add k t d) = insert k (fst ` set d)"
  by (simp add: dd_add_def keys_dict_set keys_dd_touch)

lemma distinct_dd_add: "distinct (map fst d) \<Longrightarrow> distinct (map fst (dd_add k t d))"
  by (simp add: dd_add_def distinct_dict_set distinct_dd_touch)

lemma dd_get_dd_update:
  "dd_get (dd_update k xs d) x = (if x = k then set_update (dd_get d k) xs else dd_get d x)"
  by (auto simp: dd_update_def dd_get_def map_of_dict_set map_of_dd_touch split: option.splits)

lemma keys_dd_update: "fst ` set (dd_update k xs d) = insert k (fst ` set d)"
  by (simp add: dd_update_def keys_dict_set keys_dd_touch)

lemma dd_get_fold_touch: "dd_get (fold dd_touch ks d) x = dd_get d x"
  by (induction ks arbitrary: d) (simp_all add: dd_get_dd_touch)

lemma keys_fold_touch: "fst ` set (fold dd_touch ks d) = fst ` set d \<union> set ks"
  by (induction ks arbitrary: d) (auto simp: keys_dd_touch)

lemma distinct_fold_touch:
  "distinct (map fst d) \<Longrightarrow> distinct (map fst (fold dd_touch ks d))"
  by (induction ks arbitrary: d) (simp_all add: distinct_dd_touch)

lemma dd_get_fold_add:
  "set (dd_get (fold (\<lambda>k. dd_add k t) ks d) x) =
     set (dd_get d x) \<union> (if x \<in> set ks then {t} else {})"
  by (induction ks arbitrary: d) (auto simp: dd_get_dd_add set_set_add)

lemma keys_fold_add: "fst ` set (fold (\<lambda>k. dd_add k t) ks d) = fst ` set d \<union> set ks"
  by (induction ks arbitrary: d) (auto simp: keys_dd_add)

lemma distinct_fold_add:
  "distinct (map fst d) \<Longrightarrow> distinct (map fst (fold (\<lambda>k. dd_add k t) ks d))"
  by (induction ks arbitrary: d) (simp_all add: distinct_dd_add)

section \<open>Properties of the first loop\<close>

lemma set_graphed:
  "set (graphed a) = {d. (Tokens_target, Dict d) \<in> set a \<and> target d \<noteq> ''.PHONY''}"
  by (induction a rule: graphed.induct) auto

lemma build_step_skip:
  "build_step e st = Inr st' \<Longrightarrow> graphed (e # rest) = graphed rest \<Longrightarrow> st' = st"
  by (cases e; cases "snd e") (auto simp: build_step_def split: if_splits)

lemma build_step_graphed:
  assumes "build_step e st = Inr st'" and "graphed (e # rest) = d # graphed rest"
  shows "st' = \<lparr>
      dependencies = dict_set (target d) (deps d) (dependencies st),
      influences =
        fold dd_touch (snd (deps d))
          (fold (\<lambda>k. dd_add k (target d)) (fst (deps d))
             (dd_touch (target d) (influences st))),
      order_only = set_update (order_only st) (snd (deps d)) \<rparr>"
  using assms by (cases e; cases "snd e") (auto simp: build_step_def split: if_splits)

lemma graphed_Cons_cases:
  "graphed (e # rest) = graphed rest \<or> (\<exists>d. graphed (e # rest) = d # graphed rest)"
  by (cases e; cases "snd e") auto

lemma build_for_effect:
  "build_for a st = Inr st' \<Longrightarrow>
   (\<forall>x. set (dd_get (influences st') x) =
      set (dd_get (influences st) x) \<union> {target d | d. d \<in> set (graphed a) \<and> x \<in> set (fst (deps d))}) \<and>
   fst ` set (influences st') =
      fst ` set (influences st) \<union>
      (\<Union>d \<in> set (graphed a). insert (target d) (set (fst (deps d)) \<union> set (snd (deps d)))) \<and>
   set (order_only st') = set (order_only st) \<union> (\<Union>d \<in> set (graphed a). set (snd (deps d))) \<and>
   fst ` set (dependencies st') = fst ` set (dependencies st) \<union> target ` set (graphed a) \<and>
   (distinct (map fst (influences st)) \<longrightarrow> distinct (map fst (influences st')))"
proof (induction a arbitrary: st)
  case Nil
  then show ?case by simp
next
  case (Cons e rest)
  from Cons.prems obtain st1 where s1: "build_step e st = Inr st1"
    and r: "build_for rest st1 = Inr st'"
    by (auto split: sum.splits)
  note ih = Cons.IH [OF r]
  from graphed_Cons_cases [of e rest] show ?case
  proof
    assume g: "graphed (e # rest) = graphed rest"
    from build_step_skip [OF s1 g] have "st1 = st" .
    with ih g show ?thesis by simp
  next
    assume "\<exists>d. graphed (e # rest) = d # graphed rest"
    then obtain d where g: "graphed (e # rest) = d # graphed rest" ..
    note st1 = build_step_graphed [OF s1 g]
    have i1: "\<And>x. set (dd_get (influences st1) x) =
        set (dd_get (influences st) x) \<union> (if x \<in> set (fst (deps d)) then {target d} else {})"
      by (simp add: st1 dd_get_fold_touch dd_get_fold_add dd_get_dd_touch)
    have k1: "fst ` set (influences st1) = fst ` set (influences st) \<union>
        insert (target d) (set (fst (deps d)) \<union> set (snd (deps d)))"
      by (auto simp: st1 keys_fold_touch keys_fold_add keys_dd_touch)
    have o1: "set (order_only st1) = set (order_only st) \<union> set (snd (deps d))"
      by (simp add: st1 set_set_update)
    have d1: "fst ` set (dependencies st1) = insert (target d) (fst ` set (dependencies st))"
      by (simp add: st1 keys_dict_set)
    have dist1: "distinct (map fst (influences st)) \<longrightarrow> distinct (map fst (influences st1))"
      by (simp add: st1 distinct_fold_touch distinct_fold_add distinct_dd_touch)
    have "\<forall>x. set (dd_get (influences st') x) =
      set (dd_get (influences st) x) \<union>
        {target d' | d'. d' \<in> set (graphed (e # rest)) \<and> x \<in> set (fst (deps d'))}"
      using ih i1 unfolding g by auto
    moreover have "fst ` set (influences st') =
      fst ` set (influences st) \<union>
      (\<Union>d \<in> set (graphed (e # rest)). insert (target d) (set (fst (deps d)) \<union> set (snd (deps d))))"
      using ih k1 unfolding g by auto
    moreover have "set (order_only st') =
        set (order_only st) \<union> (\<Union>d \<in> set (graphed (e # rest)). set (snd (deps d)))"
      using ih o1 unfolding g by auto
    moreover have "fst ` set (dependencies st') =
        fst ` set (dependencies st) \<union> target ` set (graphed (e # rest))"
      using ih d1 unfolding g by auto
    moreover have "distinct (map fst (influences st)) \<longrightarrow> distinct (map fst (influences st'))"
      using ih dist1 by blast
    ultimately show ?thesis by blast
  qed
qed

lemma build_for_filter:
  "build_for (filter (\<lambda>e. \<not> (fst e = Tokens_target \<and>
      (case snd e of Dict d \<Rightarrow> target d = ''.PHONY'' | Str s \<Rightarrow> False))) a) st = build_for a st"
proof (induction a arbitrary: st)
  case Nil
  then show ?case by simp
next
  case (Cons e rest)
  show ?case
  proof (cases "fst e = Tokens_target \<and> (case snd e of Dict d \<Rightarrow> target d = ''.PHONY'' | Str s \<Rightarrow> False)")
    case True
    then have "build_step e st = Inr st"
      by (auto simp: build_step_def split: node.splits)
    with True Cons show ?thesis by simp
  next
    case False
    with Cons show ?thesis by (simp split: sum.splits)
  qed
qed

lemma gdi_build:
  "get_dependencies_influences limit a = Inr (dp, infl, oo, ind) \<Longrightarrow>
   \<exists>st. build_for a \<lparr>dependencies = [], influences = [], order_only = []\<rparr> = Inr st \<and>
     dp = dependencies st \<and> infl = influences st \<and> oo = order_only st"
  by (auto simp: get_dependencies_influences_def split: sum.splits)

lemma influences_members_are_keys:
  assumes "build_for a \<lparr>dependencies = [], influences = [], order_only = []\<rparr> = Inr st"
    and "(x, y) \<in> influence_rel (influences st)"
  shows "y \<in> fst ` set (influences st)"
proof -
  note e = build_for_effect [OF assms(1)]
  have n: "\<And>x. dd_get [] x = []" by (simp add: dd_get_def)
  from assms(2) have "y \<in> set (dd_get (influences st) x)" by (simp add: influence_rel_def)
  with e obtain d where "d \<in> set (graphed a)" "y = target d" by (auto simp: n)
  with e show ?thesis by auto
qed

section \<open>The target \<open>.PHONY\<close>\<close>

text \<open>
  Claim C6: \<open>.PHONY\<close> is never a key of \<open>dependencies\<close>; the result of
  \<open>get_dependencies_influences\<close> does not change when the target entries named
  \<open>.PHONY\<close> are removed from the AST, so they contribute nothing to any of the four
  results; and the line \<open>.PHONY: clean test\<close> parses to one entry, from which the four
  results are empty. All of this holds whatever the recursion limit is.
\<close>

theorem phony_excluded:
  "(get_dependencies_influences limit a = Inr (dp, infl, oo, ind) \<longrightarrow> ''.PHONY'' \<notin> fst ` set dp) \<and>
   get_dependencies_influences limit
     (filter (\<lambda>e. \<not> (fst e = Tokens_target \<and>
        (case snd e of Dict d \<Rightarrow> target d = ''.PHONY'' | Str s \<Rightarrow> False))) a)
     = get_dependencies_influences limit a \<and>
   parse [''.PHONY: clean test''] = Inr phony_ast \<and>
   get_dependencies_influences limit phony_ast = Inr ([], [], [], [])"
proof (intro conjI impI)
  assume "get_dependencies_influences limit a = Inr (dp, infl, oo, ind)"
  from gdi_build [OF this] obtain st where
    b: "build_for a \<lparr>dependencies = [], influences = [], order_only = []\<rparr> = Inr st"
    and dp: "dp = dependencies st"
    by blast
  from build_for_effect [OF b] have "fst ` set dp = target ` set (graphed a)"
    by (simp add: dp)
  then show "''.PHONY'' \<notin> fst ` set dp" by (auto simp: set_graphed)
next
  show "get_dependencies_influences limit
     (filter (\<lambda>e. \<not> (fst e = Tokens_target \<and>
        (case snd e of Dict d \<Rightarrow> target d = ''.PHONY'' | Str s \<Rightarrow> False))) a)
     = get_dependencies_influences limit a"
    by (simp only: get_dependencies_influences_def build_for_filter)
next
  show "parse [''.PHONY: clean test''] = Inr phony_ast" by code_simp
next
  have "build_for phony_ast \<lparr>dependencies = [], influences = [], order_only = []\<rparr>
      = Inr \<lparr>dependencies = [], influences = [], order_only = []\<rparr>"
    by code_simp
  moreover have "indirect_for limit [] = Inr []" by (simp add: indirect_for_def)
  ultimately show "get_dependencies_influences limit phony_ast = Inr ([], [], [], [])"
    by (simp add: get_dependencies_influences_def)
qed

theorem phony_excluded_witness:
  "get_dependencies_influences 1000 order_only_ast =
     Inr ([(''A'', ([''B''], [''X''])), (''C'', ([], [''A'']))],
          [(''A'', []), (''B'', [''A'']), (''X'', []), (''C'', [])], [''X'', ''A''], [(''B'', [])]) \<and>
   ''.PHONY'' \<notin> fst ` set [(''A'', ([''B''], [''X''])), (''C'', ([], [''A'']))]"
proof -
  have g: "get_dependencies_influences 1000 order_only_ast =
     Inr ([(''A'', ([''B''], [''X''])), (''C'', ([], [''A'']))],
          [(''A'', []), (''B'', [''A'']), (''X'', []), (''C'', [])], [''X'', ''A''], [(''B'', [])])"
    by code_simp
  from phony_excluded [of 1000 order_only_ast "[(''A'', ([''B''], [''X''])), (''C'', ([], [''A'']))]"
      "[(''A'', []), (''B'', [''A'']), (''X'', []), (''C'', [])]" "[''X'', ''A'']" "[(''B'', [])]"] g
  show ?thesis by blast
qed

section \<open>Order-only dependencies\<close>



section \<open>Properties of the recursion\<close>

lemma for_each_Inr_mono:
  assumes "\<And>x s r. x \<in> set xs \<Longrightarrow> f x s = Inr r \<Longrightarrow> g x s = Inr r"
    and "for_each f xs s = Inr r"
  shows "for_each g xs s = Inr r"
  using assms
proof (induction xs arbitrary: s)
  case Nil
  then show ?case by simp
next
  case (Cons x xs)
  from Cons.prems(2) obtain s1 where 1: "f x s = Inr s1" and 2: "for_each f xs s1 = Inr r"
    by (auto split: sum.splits)
  from Cons.prems(1) [OF _ 1] have "g x s = Inr s1" by simp
  moreover from Cons.IH [OF _ 2] Cons.prems(1) have "for_each g xs s1 = Inr r" by simp
  ultimately show ?case by simp
qed

lemma recurse_Suc:
  "recurse_indirect_influences n infl orig t ind = Inr r \<Longrightarrow>
   recurse_indirect_influences (Suc n) infl orig t ind = Inr r"
proof (induction n arbitrary: t ind r)
  case 0
  then show ?case by (simp add: recurse_indirect_influences.simps(1))
next
  case (Suc n)
  from Suc.prems have "for_each (\<lambda>t ind. recurse_indirect_influences n infl orig t ind)
      (dd_get infl t) (dd_update orig (dd_get infl t) ind) = Inr r"
    by (simp add: recurse_indirect_influences.simps(2))
  then have "for_each (\<lambda>t ind. recurse_indirect_influences (Suc n) infl orig t ind)
      (dd_get infl t) (dd_update orig (dd_get infl t) ind) = Inr r"
    by (rule for_each_Inr_mono [rotated]) (rule Suc.IH)
  then show ?case by (simp add: recurse_indirect_influences.simps(2) [of "Suc n"])
qed

lemma recurse_add:
  "recurse_indirect_influences n infl orig t ind = Inr r \<Longrightarrow>
   recurse_indirect_influences (n + k) infl orig t ind = Inr r"
  by (induction k) (simp_all add: recurse_Suc)

lemma indirect_for_add:
  assumes "indirect_for n infl = Inr r"
  shows "indirect_for (n + k) infl = Inr r"
proof -
  from assms have "for_each (\<lambda>(original_target, targets) ind.
         for_each (\<lambda>t ind'. recurse_indirect_influences n infl original_target t ind')
           targets ind) infl [] = Inr r"
    by (simp add: indirect_for_def)
  then have "for_each (\<lambda>(original_target, targets) ind.
         for_each (\<lambda>t ind'. recurse_indirect_influences (n + k) infl original_target t ind')
           targets ind) infl [] = Inr r"
  proof (rule for_each_Inr_mono [rotated])
    fix p :: "string \<times> string list" and s r
    obtain orig targets where p: "p = (orig, targets)" by (cases p)
    assume "(case p of (original_target, targets) \<Rightarrow> \<lambda>ind.
         for_each (\<lambda>t ind'. recurse_indirect_influences n infl original_target t ind')
           targets ind) s = Inr r"
    then have "for_each (\<lambda>t ind'. recurse_indirect_influences n infl orig t ind') targets s = Inr r"
      by (simp add: p)
    then have "for_each (\<lambda>t ind'. recurse_indirect_influences (n + k) infl orig t ind') targets s
        = Inr r"
      by (rule for_each_Inr_mono [rotated]) (rule recurse_add)
    then show "(case p of (original_target, targets) \<Rightarrow> \<lambda>ind.
         for_each (\<lambda>t ind'. recurse_indirect_influences (n + k) infl original_target t ind')
           targets ind) s = Inr r"
      by (simp add: p)
  qed
  then show ?thesis by (simp add: indirect_for_def)
qed

lemma gdi_add:
  "get_dependencies_influences n a = Inr r \<Longrightarrow> get_dependencies_influences (n + k) a = Inr r"
  by (auto simp: get_dependencies_influences_def split: sum.splits dest: indirect_for_add [of _ _ _ k])

lemma for_each_effect:
  assumes "\<And>x s. x \<in> set xs \<Longrightarrow>
      \<exists>s'. f x s = Inr s' \<and> (\<forall>k. set (dd_get s' k) = set (dd_get s k) \<union> A x k)"
  shows "\<exists>s'. for_each f xs s = Inr s' \<and>
      (\<forall>k. set (dd_get s' k) = set (dd_get s k) \<union> (\<Union>x \<in> set xs. A x k))"
  using assms
proof (induction xs arbitrary: s)
  case Nil
  then show ?case by simp
next
  case (Cons x xs)
  from Cons.prems [of x s] obtain s1 where
    1: "f x s = Inr s1" "\<forall>k. set (dd_get s1 k) = set (dd_get s k) \<union> A x k"
    by auto
  from Cons.IH [of s1] Cons.prems obtain s2 where
    2: "for_each f xs s1 = Inr s2"
       "\<forall>k. set (dd_get s2 k) = set (dd_get s1 k) \<union> (\<Union>x \<in> set xs. A x k)"
    by auto
  from 1 2 have "for_each f (x # xs) s = Inr s2 \<and>
      (\<forall>k. set (dd_get s2 k) = set (dd_get s k) \<union> (\<Union>x \<in> set (x # xs). A x k))"
    by auto
  then show ?case by blast
qed

lemma for_each_error:
  "for_each f xs s = Inl e \<Longrightarrow> \<exists>x \<in> set xs. \<exists>s'. f x s' = Inl e"
  by (induction xs arbitrary: s) (auto split: sum.splits)

lemma for_each_raises:
  assumes "x \<in> set xs" and "\<And>s. f x s = Inl e"
    and "\<And>y s e'. y \<in> set xs \<Longrightarrow> f y s = Inl e' \<Longrightarrow> e' = e"
  shows "for_each f xs s = Inl e"
proof (cases "for_each f xs s")
  case (Inl e')
  from for_each_error [OF Inl] assms(3) have "e' = e" by blast
  with Inl show ?thesis by simp
next
  case (Inr r)
  have "\<And>s r. for_each f xs s = Inr r \<Longrightarrow> \<forall>y \<in> set xs. \<exists>s' r'. f y s' = Inr r'"
  proof -
    fix s r
    show "for_each f xs s = Inr r \<Longrightarrow> \<forall>y \<in> set xs. \<exists>s' r'. f y s' = Inr r'"
      by (induction xs arbitrary: s) (auto split: sum.splits)
  qed
  from this [OF Inr] assms(1,2) show ?thesis by force
qed

lemma recurse_error:
  "recurse_indirect_influences n infl orig t ind = Inl e \<Longrightarrow> e = RecursionError"
proof (induction n arbitrary: t ind)
  case 0
  then show ?case by (simp add: recurse_indirect_influences.simps(1))
next
  case (Suc n)
  from Suc.prems have "for_each (\<lambda>t ind. recurse_indirect_influences n infl orig t ind)
      (dd_get infl t) (dd_update orig (dd_get infl t) ind) = Inl e"
    by (simp add: recurse_indirect_influences.simps(2))
  from for_each_error [OF this] Suc.IH show ?case by blast
qed

lemma trancl_image_unfold:
  "{z. (t, z) \<in> r\<^sup>+} = {x. (t, x) \<in> r} \<union> (\<Union>x \<in> {x. (t, x) \<in> r}. {z. (x, z) \<in> r\<^sup>+})"
proof (intro set_eqI iffI)
  fix z
  assume "z \<in> {z. (t, z) \<in> r\<^sup>+}"
  then have "(t, z) \<in> r\<^sup>+" by simp
  then obtain x where "(t, x) \<in> r" "(x, z) \<in> r\<^sup>*" by (blast dest: tranclD)
  then show "z \<in> {x. (t, x) \<in> r} \<union> (\<Union>x \<in> {x. (t, x) \<in> r}. {z. (x, z) \<in> r\<^sup>+})"
    by (auto dest: rtranclD)
next
  fix z
  assume "z \<in> {x. (t, x) \<in> r} \<union> (\<Union>x \<in> {x. (t, x) \<in> r}. {z. (x, z) \<in> r\<^sup>+})"
  then show "z \<in> {z. (t, z) \<in> r\<^sup>+}" by (auto intro: trancl_into_trancl2)
qed

lemma recurse_returns:
  assumes "\<forall>z. (t, z) \<notin> influence_rel infl ^^ n"
  shows "\<exists>ind'. recurse_indirect_influences n infl orig t ind = Inr ind' \<and>
     (\<forall>k. set (dd_get ind' k) =
        set (dd_get ind k) \<union> (if k = orig then {z. (t, z) \<in> (influence_rel infl)\<^sup>+} else {}))"
  using assms
proof (induction n arbitrary: t ind)
  case 0
  then show ?case by simp
next
  case (Suc n)
  let ?R = "influence_rel infl"
  let ?A = "\<lambda>x k. if k = orig then {z. (x, z) \<in> ?R\<^sup>+} else {}"
  let ?s = "dd_update orig (dd_get infl t) ind"
  have "\<exists>s'. for_each (\<lambda>t ind. recurse_indirect_influences n infl orig t ind) (dd_get infl t) ?s
        = Inr s' \<and>
      (\<forall>k. set (dd_get s' k) = set (dd_get ?s k) \<union> (\<Union>x \<in> set (dd_get infl t). ?A x k))"
  proof (rule for_each_effect)
    fix x s
    assume "x \<in> set (dd_get infl t)"
    then have e: "(t, x) \<in> ?R" by (simp add: influence_rel_def)
    have "\<forall>z. (x, z) \<notin> ?R ^^ n"
    proof
      fix z
      show "(x, z) \<notin> ?R ^^ n"
      proof
        assume "(x, z) \<in> ?R ^^ n"
        with e have "(t, z) \<in> ?R ^^ Suc n" by (rule relpow_Suc_I2)
        with Suc.prems show False by blast
      qed
    qed
    from Suc.IH [OF this, of s]
    show "\<exists>s'. recurse_indirect_influences n infl orig x s = Inr s' \<and>
        (\<forall>k. set (dd_get s' k) = set (dd_get s k) \<union> ?A x k)" .
  qed
  then obtain s' where
    1: "for_each (\<lambda>t ind. recurse_indirect_influences n infl orig t ind) (dd_get infl t) ?s
        = Inr s'"
    and 2: "\<forall>k. set (dd_get s' k) = set (dd_get ?s k) \<union> (\<Union>x \<in> set (dd_get infl t). ?A x k)"
    by blast
  from 1 have r: "recurse_indirect_influences (Suc n) infl orig t ind = Inr s'"
    by (simp add: recurse_indirect_influences.simps(2))
  have c: "set (dd_get infl t) = {x. (t, x) \<in> ?R}" by (simp add: influence_rel_def)
  have "\<forall>k. set (dd_get s' k) =
      set (dd_get ind k) \<union> (if k = orig then {z. (t, z) \<in> ?R\<^sup>+} else {})"
  proof
    fix k
    show "set (dd_get s' k) =
      set (dd_get ind k) \<union> (if k = orig then {z. (t, z) \<in> ?R\<^sup>+} else {})"
    proof (cases "k = orig")
      case True
      from 2 have "set (dd_get s' k) =
          set (dd_get ind orig) \<union> ({x. (t, x) \<in> ?R} \<union> (\<Union>x \<in> {x. (t, x) \<in> ?R}. {z. (x, z) \<in> ?R\<^sup>+}))"
        by (simp add: True dd_get_dd_update set_set_update c Un_assoc)
      with trancl_image_unfold [of t ?R] True show ?thesis by simp
    next
      case False
      with 2 show ?thesis by (simp add: dd_get_dd_update)
    qed
  qed
  with r show ?case by blast
qed

lemma recurse_raises:
  "(t, z) \<in> influence_rel infl ^^ n \<Longrightarrow>
   recurse_indirect_influences n infl orig t ind = Inl RecursionError"
proof (induction n arbitrary: t ind)
  case 0
  show ?case by (simp add: recurse_indirect_influences.simps(1))
next
  case (Suc n)
  from Suc.prems obtain x where x: "(t, x) \<in> influence_rel infl" "(x, z) \<in> influence_rel infl ^^ n"
    by (blast dest: relpow_Suc_D2)
  from x(1) have m: "x \<in> set (dd_get infl t)" by (simp add: influence_rel_def)
  have "for_each (\<lambda>t ind. recurse_indirect_influences n infl orig t ind)
      (dd_get infl t) (dd_update orig (dd_get infl t) ind) = Inl RecursionError"
    using m
  proof (rule for_each_raises)
    fix s
    show "recurse_indirect_influences n infl orig x s = Inl RecursionError"
      by (rule Suc.IH [OF x(2)])
  next
    fix y s e'
    assume "recurse_indirect_influences n infl orig y s = Inl e'"
    then show "e' = RecursionError" by (rule recurse_error)
  qed
  then show ?case by (simp add: recurse_indirect_influences.simps(2))
qed

lemma influence_rel_member:
  "(x, y) \<in> influence_rel infl \<Longrightarrow> \<exists>v. (x, v) \<in> set infl \<and> y \<in> set v"
  by (auto simp: influence_rel_def dd_get_def split: option.splits dest: map_of_SomeD [OF sym])

lemma finite_influence_rel: "finite (influence_rel infl)"
proof (rule finite_subset)
  show "influence_rel infl \<subseteq> fst ` set infl \<times> \<Union> (set ` snd ` set infl)"
    by (auto dest!: influence_rel_member) (force+)
  show "finite (fst ` set infl \<times> \<Union> (set ` snd ` set infl))" by simp
qed

lemma UN_if_key:
  "(\<Union>t \<in> T. if k = orig then X t else {}) = (if k = orig then (\<Union>t \<in> T. X t) else {})"
  by auto

lemma item_edge:
  assumes "distinct (map fst infl)" and "(k, v) \<in> set infl" and "t \<in> set v"
  shows "(k, t) \<in> influence_rel infl"
proof -
  from assms(1,2) have "map_of infl k = Some v" by (rule map_of_is_SomeI)
  with assms(3) show ?thesis by (simp add: influence_rel_def dd_get_def)
qed

lemma indirect_for_returns:
  assumes short: "influence_rel infl ^^ Suc n = {}" and di: "distinct (map fst infl)"
  shows "\<exists>ind. indirect_for n infl = Inr ind \<and>
     (\<forall>k. set (dd_get ind k) =
       {z. \<exists>t. (k, t) \<in> influence_rel infl \<and> (t, z) \<in> (influence_rel infl)\<^sup>+})"
proof -
  let ?R = "influence_rel infl"
  let ?A = "\<lambda>p k. if k = fst p then (\<Union>t \<in> set (snd p). {z. (t, z) \<in> ?R\<^sup>+}) else {}"
  let ?body = "\<lambda>(original_target, targets) ind.
      for_each (\<lambda>t ind'. recurse_indirect_influences n infl original_target t ind') targets ind"
  have "\<exists>s'. for_each ?body infl [] = Inr s' \<and>
      (\<forall>k. set (dd_get s' k) = set (dd_get [] k) \<union> (\<Union>p \<in> set infl. ?A p k))"
  proof (rule for_each_effect)
    fix p :: "string \<times> string list" and s :: "string list dict"
    assume pin: "p \<in> set infl"
    obtain orig targets where p: "p = (orig, targets)" by (cases p)
    have "\<exists>s'. for_each (\<lambda>t ind'. recurse_indirect_influences n infl orig t ind') targets s = Inr s' \<and>
        (\<forall>k. set (dd_get s' k) = set (dd_get s k) \<union>
           (\<Union>t \<in> set targets. if k = orig then {z. (t, z) \<in> ?R\<^sup>+} else {}))"
    proof (rule for_each_effect)
      fix t s'
      assume "t \<in> set targets"
      with di pin p have e: "(orig, t) \<in> ?R" by (auto intro: item_edge)
      have "\<forall>z. (t, z) \<notin> ?R ^^ n"
      proof
        fix z
        show "(t, z) \<notin> ?R ^^ n"
        proof
          assume "(t, z) \<in> ?R ^^ n"
          with e have "(orig, z) \<in> ?R ^^ Suc n" by (rule relpow_Suc_I2)
          with short show False by simp
        qed
      qed
      then show "\<exists>r. recurse_indirect_influences n infl orig t s' = Inr r \<and>
          (\<forall>k. set (dd_get r k) = set (dd_get s' k) \<union>
             (if k = orig then {z. (t, z) \<in> ?R\<^sup>+} else {}))"
        by (rule recurse_returns)
    qed
    then have "\<exists>s'. for_each (\<lambda>t ind'. recurse_indirect_influences n infl orig t ind') targets s = Inr s' \<and>
        (\<forall>k. set (dd_get s' k) = set (dd_get s k) \<union> ?A (orig, targets) k)"
      unfolding UN_if_key fst_conv snd_conv .
    then show "\<exists>s'. ?body p s = Inr s' \<and> (\<forall>k. set (dd_get s' k) = set (dd_get s k) \<union> ?A p k)"
      unfolding p prod.case .
  qed
  then obtain ind where 1: "for_each ?body infl [] = Inr ind"
    and 2: "\<forall>k. set (dd_get ind k) = set (dd_get [] k) \<union> (\<Union>p \<in> set infl. ?A p k)"
    by blast
  have "\<forall>k. set (dd_get ind k) = {z. \<exists>t. (k, t) \<in> ?R \<and> (t, z) \<in> ?R\<^sup>+}"
  proof
    fix k
    have "(\<Union>p \<in> set infl. ?A p k) = (\<Union>t \<in> set (dd_get infl k). {z. (t, z) \<in> ?R\<^sup>+})"
    proof (cases "map_of infl k")
      case None
      then have "k \<notin> fst ` set infl" by (simp add: map_of_eq_None_iff)
      then have "(\<Union>p \<in> set infl. ?A p k) = {}" by auto
      with None show ?thesis by (simp add: dd_get_def)
    next
      case (Some v)
      then have m: "(k, v) \<in> set infl" by (rule map_of_SomeD)
      have u: "\<And>p. p \<in> set infl \<Longrightarrow> fst p = k \<Longrightarrow> p = (k, v)"
        using di m by (metis eq_key_imp_eq_value prod.collapse)
      have "(\<Union>p \<in> set infl. ?A p k) = ?A (k, v) k"
      proof (intro set_eqI iffI)
        fix z
        assume "z \<in> (\<Union>p \<in> set infl. ?A p k)"
        then obtain p where pp: "p \<in> set infl" "z \<in> ?A p k" by blast
        from pp(2) have "fst p = k" by (auto split: if_splits)
        from u [OF pp(1) this] pp(2) show "z \<in> ?A (k, v) k" by simp
      next
        fix z
        assume "z \<in> ?A (k, v) k"
        with m show "z \<in> (\<Union>p \<in> set infl. ?A p k)" by blast
      qed
      with Some show ?thesis by (simp add: dd_get_def)
    qed
    with 2 show "set (dd_get ind k) = {z. \<exists>t. (k, t) \<in> ?R \<and> (t, z) \<in> ?R\<^sup>+}"
      by (auto simp: dd_get_def influence_rel_def)
  qed
  with 1 show ?thesis by (auto simp: indirect_for_def)
qed

lemma indirect_for_raises:
  assumes "influence_rel infl ^^ Suc n \<noteq> {}"
  shows "indirect_for n infl = Inl RecursionError"
proof -
  let ?R = "influence_rel infl"
  let ?body = "\<lambda>(original_target, targets) ind.
      for_each (\<lambda>t ind'. recurse_indirect_influences n infl original_target t ind') targets ind"
  have inner: "\<And>orig targets s e. for_each (\<lambda>t ind'. recurse_indirect_influences n infl orig t ind')
      targets s = Inl e \<Longrightarrow> e = RecursionError"
    by (blast dest: for_each_error recurse_error)
  from assms obtain k z where "(k, z) \<in> ?R ^^ Suc n" by auto
  then obtain t where t: "(k, t) \<in> ?R" "(t, z) \<in> ?R ^^ n" by (blast dest: relpow_Suc_D2)
  from influence_rel_member [OF t(1)] obtain v where v: "(k, v) \<in> set infl" "t \<in> set v"
    by blast
  have r: "\<And>s. for_each (\<lambda>t ind'. recurse_indirect_influences n infl k t ind') v s
      = Inl RecursionError"
    using v(2)
  proof (rule for_each_raises)
    fix s
    show "recurse_indirect_influences n infl k t s = Inl RecursionError"
      by (rule recurse_raises [OF t(2)])
  next
    fix y s e'
    assume "recurse_indirect_influences n infl k y s = Inl e'"
    then show "e' = RecursionError" by (rule recurse_error)
  qed
  have "for_each ?body infl [] = Inl RecursionError"
    using v(1)
  proof (rule for_each_raises)
    fix s
    show "?body (k, v) s = Inl RecursionError" using r by simp
  next
    fix p :: "string \<times> string list" and s e'
    obtain orig targets where p: "p = (orig, targets)" by (cases p)
    assume "?body p s = Inl e'"
    then show "e' = RecursionError" unfolding p prod.case by (rule inner)
  qed
  then show ?thesis by (simp add: indirect_for_def)
qed

lemma cycle_paths:
  assumes "(c, c) \<in> r\<^sup>+"
  shows "\<exists>z. (c, z) \<in> r ^^ n \<and> (z, c) \<in> r\<^sup>*"
proof (induction n)
  case 0
  show ?case by auto
next
  case (Suc n)
  then obtain z where z: "(c, z) \<in> r ^^ n" "(z, c) \<in> r\<^sup>*" by blast
  from z(2) assms have "(z, c) \<in> r\<^sup>+" by (rule rtrancl_trancl_trancl)
  then obtain x where x: "(z, x) \<in> r" "(x, c) \<in> r\<^sup>*" by (blast dest: tranclD)
  from z(1) x(1) have "(c, x) \<in> r ^^ Suc n" by auto
  with x(2) show ?case by blast
qed

lemma cyclic_paths_of_every_length: "\<not> acyclic r \<Longrightarrow> r ^^ n \<noteq> {}"
proof -
  assume "\<not> acyclic r"
  then obtain c where "(c, c) \<in> r\<^sup>+" by (auto simp: acyclic_def)
  from cycle_paths [OF this, of n] show ?thesis by auto
qed

lemma relpow_prefix:
  fixes r :: "('a \<times> 'a) set"
  shows "(x, z) \<in> r ^^ (a + b) \<Longrightarrow> \<exists>y. (x, y) \<in> r ^^ a"
  by (auto simp: relpow_add)

lemma bounded_from:
  assumes wf: "wf (r\<inverse>)" and fin: "finite r"
  shows "\<exists>n. \<forall>z. (t, z) \<notin> r ^^ n"
  using wf
proof (induction t rule: wf_induct_rule)
  case (less t)
  let ?C = "r `` {t}"
  from fin have fc: "finite ?C" by (rule finite_Image)
  from less.IH have "\<forall>c \<in> ?C. \<exists>n. \<forall>z. (c, z) \<notin> r ^^ n" by blast
  then obtain f where f: "\<forall>c \<in> ?C. \<forall>z. (c, z) \<notin> r ^^ f c" by metis
  let ?N = "Max (insert 0 (f ` ?C))"
  have "\<forall>z. (t, z) \<notin> r ^^ Suc ?N"
  proof
    fix z
    show "(t, z) \<notin> r ^^ Suc ?N"
    proof
      assume "(t, z) \<in> r ^^ Suc ?N"
      then obtain c where c: "(t, c) \<in> r" "(c, z) \<in> r ^^ ?N" by (blast dest: relpow_Suc_D2)
      from c(1) have cin: "c \<in> ?C" by blast
      with fc have "f c \<le> ?N" by simp
      then have "?N = f c + (?N - f c)" by simp
      with c(2) have "(c, z) \<in> r ^^ (f c + (?N - f c))" by simp
      from relpow_prefix [OF this] f cin show False by blast
    qed
  qed
  then show ?case by blast
qed

lemma acyclic_bounded:
  assumes fin: "finite r" and ac: "acyclic r"
  shows "\<exists>n. \<forall>m \<ge> n. r ^^ Suc m = {}"
proof -
  from fin ac have wf: "wf (r\<inverse>)" by (rule finite_acyclic_wf_converse)
  from bounded_from [OF wf fin] have "\<forall>t. \<exists>n. \<forall>z. (t, z) \<notin> r ^^ n" by blast
  then obtain g where g: "\<forall>t z. (t, z) \<notin> r ^^ g t" by metis
  from fin have fd: "finite (Domain r)" by (rule finite_Domain)
  let ?N = "Max (insert 0 (g ` Domain r))"
  have "\<forall>m \<ge> ?N. r ^^ Suc m = {}"
  proof (intro allI impI)
    fix m
    assume le: "?N \<le> m"
    show "r ^^ Suc m = {}"
    proof (rule ccontr)
      assume "r ^^ Suc m \<noteq> {}"
      then obtain x z where xz: "(x, z) \<in> r ^^ Suc m" by auto
      then obtain y where "(x, y) \<in> r" by (blast dest: relpow_Suc_D2)
      then have "x \<in> Domain r" by blast
      with fd have "g x \<le> ?N" by simp
      with le have "Suc m = g x + (Suc m - g x)" by simp
      with xz have "(x, z) \<in> r ^^ (g x + (Suc m - g x))" by simp
      from relpow_prefix [OF this] g show False by blast
    qed
  qed
  then show ?thesis by blast
qed

lemma rank_bound:
  fixes f :: "'a \<Rightarrow> nat"
  assumes "\<And>x y. (x, y) \<in> r \<Longrightarrow> f y < f x"
  shows "(x, z) \<in> r ^^ n \<Longrightarrow> f z + n \<le> f x"
proof (induction n arbitrary: z)
  case 0
  then show ?case by simp
next
  case (Suc n)
  then obtain y where "(x, y) \<in> r ^^ n" "(y, z) \<in> r" by auto
  with Suc.IH [of y] assms [of y z] show ?case by simp
qed

lemma chain_rel:
  "(x, y) \<in> influence_rel chain_influences \<longleftrightarrow> (x = ''B'' \<and> y = ''A'') \<or> (x = ''C'' \<and> y = ''B'')"
  by (auto simp: influence_rel_def dd_get_def chain_influences_def split: if_splits)

lemma chain_short: "influence_rel chain_influences ^^ Suc 2 = {}"
proof -
  let ?f = "\<lambda>x. if x = ''A'' then 0 else if x = ''B'' then 1 else (2 :: nat)"
  have "\<And>x z. (x, z) \<in> influence_rel chain_influences ^^ Suc 2 \<Longrightarrow> False"
  proof -
    fix x z
    assume "(x, z) \<in> influence_rel chain_influences ^^ Suc 2"
    then have "?f z + Suc 2 \<le> ?f x"
      by (rule rank_bound [rotated]) (auto simp: chain_rel)
    then show False by (simp split: if_splits)
  qed
  then show ?thesis by auto
qed

lemma chain_long: "influence_rel chain_influences ^^ Suc 1 \<noteq> {}"
proof -
  have "(''C'', ''B'') \<in> influence_rel chain_influences" by (simp add: chain_rel)
  moreover have "(''B'', ''A'') \<in> influence_rel chain_influences" by (simp add: chain_rel)
  ultimately have "(''C'', ''A'') \<in> influence_rel chain_influences ^^ Suc 1" by auto
  then show ?thesis by blast
qed

lemma cycle_cyclic: "\<not> acyclic (influence_rel (influences cycle_state))"
proof -
  have "(''A'', ''B'') \<in> influence_rel (influences cycle_state)"
    by (simp add: influence_rel_def dd_get_def cycle_state_def)
  moreover have "(''B'', ''A'') \<in> influence_rel (influences cycle_state)"
    by (simp add: influence_rel_def dd_get_def cycle_state_def)
  ultimately have "(''A'', ''A'') \<in> (influence_rel (influences cycle_state))\<^sup>+"
    by (rule trancl_into_trancl2 [OF _ r_into_trancl])
  then show ?thesis by (auto simp: acyclic_def)
qed

lemma cycle_build:
  "build_for cycle_ast \<lparr>dependencies = [], influences = [], order_only = []\<rparr> = Inr cycle_state"
  by code_simp

lemma chain_build:
  "build_for chain_ast \<lparr>dependencies = [], influences = [], order_only = []\<rparr> = Inr chain_state"
  by code_simp

lemma chain_result:
  "get_dependencies_influences 2 chain_ast =
     Inr ([(''A'', ([''B''], [])), (''B'', ([''C''], [])), (''C'', ([], []))],
          chain_influences, [], chain_indirect)"
  by code_simp

section \<open>Indirect influences\<close>

text \<open>
  Claim C1, as the code has it: \<open>recurse_indirect_influences\<close> keeps no record of the
  targets it has visited and makes one nested call for every influence edge it follows.
  With \<open>limit\<close> nested calls allowed, \<open>get_dependencies_influences\<close> returns exactly
  when the influence graph built from the AST has no path of \<open>limit + 1\<close> edges, and
  then \<open>indirect_influences[k]\<close> is the set of the names reached from \<open>k\<close> by two or
  more influence edges (a direct influence \<open>t\<close> of \<open>k\<close>, then one or more edges from
  \<open>t\<close>); when the graph has a path of \<open>limit + 1\<close> edges the call ends in
  \<open>RecursionError\<close>. A graph with a cycle has paths of every length, so on it the call
  ends in \<open>RecursionError\<close> whatever the limit; on a graph without a cycle the call
  returns for every limit from some bound on.
\<close>

theorem indirect_influences_closure:
  "(build_for a \<lparr>dependencies = [], influences = [], order_only = []\<rparr> = Inr st \<and>
    influence_rel (influences st) ^^ Suc limit = {} \<longrightarrow>
    (\<exists>ind. get_dependencies_influences limit a =
         Inr (dependencies st, influences st, order_only st, ind) \<and>
       (\<forall>k. set (dd_get ind k) =
          {z. \<exists>t. (k, t) \<in> influence_rel (influences st) \<and>
                  (t, z) \<in> (influence_rel (influences st))\<^sup>+}))) \<and>
   (build_for a \<lparr>dependencies = [], influences = [], order_only = []\<rparr> = Inr st \<and>
    influence_rel (influences st) ^^ Suc limit \<noteq> {} \<longrightarrow>
    get_dependencies_influences limit a = Inl RecursionError) \<and>
   (build_for a \<lparr>dependencies = [], influences = [], order_only = []\<rparr> = Inr st \<and>
    \<not> acyclic (influence_rel (influences st)) \<longrightarrow>
    get_dependencies_influences limit a = Inl RecursionError) \<and>
   (build_for a \<lparr>dependencies = [], influences = [], order_only = []\<rparr> = Inr st \<and>
    acyclic (influence_rel (influences st)) \<longrightarrow>
    (\<exists>n. \<forall>m \<ge> n. \<exists>ind. get_dependencies_influences m a =
         Inr (dependencies st, influences st, order_only st, ind) \<and>
       (\<forall>k. set (dd_get ind k) =
          {z. \<exists>t. (k, t) \<in> influence_rel (influences st) \<and>
                  (t, z) \<in> (influence_rel (influences st))\<^sup>+})))"
proof -
  let ?init = "\<lparr>dependencies = [], influences = [], order_only = []\<rparr>"
  let ?R = "influence_rel (influences st)"
  have returns: "\<exists>ind. get_dependencies_influences m a =
         Inr (dependencies st, influences st, order_only st, ind) \<and>
       (\<forall>k. set (dd_get ind k) = {z. \<exists>t. (k, t) \<in> ?R \<and> (t, z) \<in> ?R\<^sup>+})"
    if b: "build_for a ?init = Inr st" and short: "?R ^^ Suc m = {}" for m
  proof -
    from build_for_effect [OF b] have "distinct (map fst (influences st))" by simp
    from indirect_for_returns [OF short this] obtain ind where
      i: "indirect_for m (influences st) = Inr ind"
      and c: "\<forall>k. set (dd_get ind k) = {z. \<exists>t. (k, t) \<in> ?R \<and> (t, z) \<in> ?R\<^sup>+}"
      by blast
    from b i have "get_dependencies_influences m a =
        Inr (dependencies st, influences st, order_only st, ind)"
      by (simp add: get_dependencies_influences_def)
    with c show ?thesis by blast
  qed
  have raises: "get_dependencies_influences m a = Inl RecursionError"
    if b: "build_for a ?init = Inr st" and long: "?R ^^ Suc m \<noteq> {}" for m
    using indirect_for_raises [OF long] b by (simp add: get_dependencies_influences_def)
  have bounded: "\<exists>n. \<forall>m \<ge> n. ?R ^^ Suc m = {}" if "acyclic ?R"
    using finite_influence_rel that by (rule acyclic_bounded)
  show ?thesis
  proof (intro conjI impI; elim conjE)
    assume "build_for a ?init = Inr st" "?R ^^ Suc limit = {}"
    then show "\<exists>ind. get_dependencies_influences limit a =
         Inr (dependencies st, influences st, order_only st, ind) \<and>
       (\<forall>k. set (dd_get ind k) = {z. \<exists>t. (k, t) \<in> ?R \<and> (t, z) \<in> ?R\<^sup>+})"
      by (rule returns)
  next
    assume "build_for a ?init = Inr st" "?R ^^ Suc limit \<noteq> {}"
    then show "get_dependencies_influences limit a = Inl RecursionError" by (rule raises)
  next
    assume b: "build_for a ?init = Inr st" and "\<not> acyclic ?R"
    from this(2) have "?R ^^ Suc limit \<noteq> {}" by (rule cyclic_paths_of_every_length)
    with b show "get_dependencies_influences limit a = Inl RecursionError" by (rule raises)
  next
    assume b: "build_for a ?init = Inr st" and "acyclic ?R"
    from bounded [OF this(2)] obtain n where "\<forall>m \<ge> n. ?R ^^ Suc m = {}" ..
    with returns [OF b] have "\<forall>m \<ge> n. \<exists>ind. get_dependencies_influences m a =
         Inr (dependencies st, influences st, order_only st, ind) \<and>
       (\<forall>k. set (dd_get ind k) = {z. \<exists>t. (k, t) \<in> ?R \<and> (t, z) \<in> ?R\<^sup>+})"
      by blast
    then show "\<exists>n. \<forall>m \<ge> n. \<exists>ind. get_dependencies_influences m a =
         Inr (dependencies st, influences st, order_only st, ind) \<and>
       (\<forall>k. set (dd_get ind k) = {z. \<exists>t. (k, t) \<in> ?R \<and> (t, z) \<in> ?R\<^sup>+})"
      by blast
  qed
qed

text \<open>
  Claim C1 as stated fails: on the cycle \<open>A: B\<close>, \<open>B: A\<close> the computation does not
  return a closure; it ends in \<open>RecursionError\<close>.
\<close>

theorem cycle_counterexample:
  "parse [''A: B'', ''B: A''] = Inr cycle_ast \<and>
   get_dependencies_influences 1000 cycle_ast = Inl RecursionError"
proof
  show "parse [''A: B'', ''B: A''] = Inr cycle_ast" by code_simp
  from cycle_cyclic have "influence_rel (influences cycle_state) ^^ Suc 1000 \<noteq> {}"
    by (rule cyclic_paths_of_every_length)
  from indirect_for_raises [OF this] cycle_build
  show "get_dependencies_influences 1000 cycle_ast = Inl RecursionError"
    by (simp add: get_dependencies_influences_def)
qed

theorem indirect_influences_closure_witness:
  "build_for chain_ast \<lparr>dependencies = [], influences = [], order_only = []\<rparr> = Inr chain_state \<and>
   influence_rel chain_influences ^^ Suc 2 = {} \<and>
   get_dependencies_influences 2 chain_ast =
     Inr ([(''A'', ([''B''], [])), (''B'', ([''C''], [])), (''C'', ([], []))],
          chain_influences, [], chain_indirect) \<and>
   set (dd_get chain_indirect ''C'') =
     {z. \<exists>t. (''C'', t) \<in> influence_rel chain_influences \<and>
             (t, z) \<in> (influence_rel chain_influences)\<^sup>+} \<and>
   influence_rel chain_influences ^^ Suc 1 \<noteq> {} \<and>
   get_dependencies_influences 1 chain_ast = Inl RecursionError \<and>
   build_for cycle_ast \<lparr>dependencies = [], influences = [], order_only = []\<rparr> = Inr cycle_state \<and>
   \<not> acyclic (influence_rel (influences cycle_state)) \<and>
   get_dependencies_influences 1000 cycle_ast = Inl RecursionError"
proof -
  have i: "influences chain_state = chain_influences" by (simp add: chain_state_def)
  from indirect_influences_closure [of chain_ast chain_state 2] chain_build chain_short i
  obtain ind where 1: "get_dependencies_influences 2 chain_ast =
         Inr (dependencies chain_state, influences chain_state, order_only chain_state, ind)"
    and 2: "\<forall>k. set (dd_get ind k) =
          {z. \<exists>t. (k, t) \<in> influence_rel chain_influences \<and>
                  (t, z) \<in> (influence_rel chain_influences)\<^sup>+}"
    by auto
  from 1 chain_result have "ind = chain_indirect" by simp
  with 2 have c: "set (dd_get chain_indirect ''C'') =
     {z. \<exists>t. (''C'', t) \<in> influence_rel chain_influences \<and>
             (t, z) \<in> (influence_rel chain_influences)\<^sup>+}"
    by blast
  from indirect_influences_closure [of chain_ast chain_state 1] chain_build chain_long i
  have s: "get_dependencies_influences 1 chain_ast = Inl RecursionError" by auto
  from indirect_influences_closure [of cycle_ast cycle_state 1000] cycle_build cycle_cyclic
  have r: "get_dependencies_influences 1000 cycle_ast = Inl RecursionError" by blast
  from chain_build chain_short chain_result c chain_long s cycle_build cycle_cyclic r
  show ?thesis by blast
qed

section \<open>The chain \<open>A: B\<close>, \<open>B: C\<close>, \<open>C:\<close>\<close>

text \<open>
  Claim C2, as the code has it: the three lines \<open>A: B\<close>, \<open>B: C\<close>, \<open>C:\<close> parse to
  three targets, and on them, with two or more nested calls allowed, the graph builder
  returns \<open>influences["C"] = {"B"}\<close>, \<open>influences["B"] = {"A"}\<close> and
  \<open>indirect_influences["C"] = {"A"}\<close>: the direct influence \<open>B\<close> of \<open>C\<close> is not
  among the indirect ones, since the recursion adds \<open>influences[t]\<close> for the targets
  \<open>t\<close> it reaches from \<open>C\<close> and never \<open>influences["C"]\<close> itself.
\<close>

theorem chain_graph:
  "parse chain_lines = Inr chain_ast \<and>
   get_dependencies_influences (2 + n) chain_ast =
     Inr ([(''A'', ([''B''], [])), (''B'', ([''C''], [])), (''C'', ([], []))],
          chain_influences, [], chain_indirect) \<and>
   set (dd_get chain_influences ''C'') = {''B''} \<and>
   set (dd_get chain_influences ''B'') = {''A''} \<and>
   set (dd_get chain_indirect ''C'') = {''A''}"
proof (intro conjI)
  show "parse chain_lines = Inr chain_ast" by code_simp
  show "get_dependencies_influences (2 + n) chain_ast =
     Inr ([(''A'', ([''B''], [])), (''B'', ([''C''], [])), (''C'', ([], []))],
          chain_influences, [], chain_indirect)"
    using chain_result by (rule gdi_add)
  show "set (dd_get chain_influences ''C'') = {''B''}" by code_simp
  show "set (dd_get chain_influences ''B'') = {''A''}" by code_simp
  show "set (dd_get chain_indirect ''C'') = {''A''}" by code_simp
qed

text \<open>
  Claim C2 as stated fails: \<open>indirect_influences["C"]\<close> is not \<open>{"A", "B"}\<close>.
\<close>

theorem chain_indirect_counterexample:
  "get_dependencies_influences 1000 chain_ast =
     Inr ([(''A'', ([''B''], [])), (''B'', ([''C''], [])), (''C'', ([], []))],
          chain_influences, [], chain_indirect) \<and>
   set (dd_get chain_indirect ''C'') \<noteq> {''A'', ''B''}"
  by code_simp

end
